theory Spec2Isabelle
  imports Main
begin

section \<open>Data model\<close>

text \<open>
  The model follows \<^verbatim>\<open>extHostTerminalShellIntegration.ts\<close>. Objects that the source
  shares by reference (executions, data streams, async iterables, barriers) live in a
  store: one list per class, an object's identity is its index, and \<^verbatim>\<open>new\<close> appends.
  Strings are \<open>string\<close>; an exit code \<^verbatim>\<open>number | undefined\<close> is \<open>int option\<close>.
  \<open>confidence\<close> is the enum \<^verbatim>\<open>TerminalShellExecutionCommandLineConfidence\<close> of
  \<^verbatim>\<open>extHostTypes\<close>, of which the source tests \<^verbatim>\<open>High\<close> only.
\<close>

datatype confidence = Low | Medium | High

record commandLine =
  cl_value :: string
  cl_confidence :: confidence
  cl_isTrusted :: bool

text \<open>
  The session looks at a URI only through \<^verbatim>\<open>URI.isUri\<close> and \<^verbatim>\<open>toString()\<close>; a URI is
  represented by the string that \<^verbatim>\<open>toString()\<close> returns, and \<^verbatim>\<open>URI | undefined\<close> is
  \<open>uri option\<close>.
\<close>

datatype uri = URI (uri_toString: string)

text \<open>
  Modelled from the spec: \<^verbatim>\<open>AsyncIterableObject\<close> and \<^verbatim>\<open>Barrier\<close> of
  \<^verbatim>\<open>base/common/async\<close> are not among the sources. An iterable is a per-reader queue
  (\<open>it_results\<close>) filled through its emitter; its executor (the callback that
  \<^verbatim>\<open>createIterable\<close> passes to the constructor) registers the emitter with the stream
  and then waits for the barrier it captured; once the barrier is open the executor
  returns and the iterable is complete (\<open>it_done\<close>). The consumer that drives the
  iterable is a cursor into the queue; it has observed termination (\<open>it_sawEnd\<close>) once
  it asks for an element behind the last one of a complete iterable. \<open>it_stream\<close> and
  \<open>it_barrier\<close> are what the executor's closure captures: the stream (\<^verbatim>\<open>this\<close>) and the
  barrier.
\<close>

record asyncIterable =
  it_stream :: nat
  it_barrier :: nat
  it_started :: bool
  it_done :: bool
  it_results :: "string list"
  it_cursor :: nat
  it_sawEnd :: bool

text \<open>Class \<^verbatim>\<open>ShellExecutionDataStream\<close>: its three private fields.\<close>

record dataStream =
  ds_barrier :: "nat option"
  ds_iterables :: "nat list"
  ds_emitters :: "nat list"

text \<open>Class \<^verbatim>\<open>InternalTerminalShellExecution\<close>.\<close>

record execution =
  ex_commandLine :: commandLine
  ex_cwd :: "uri option"
  ex_dataStream :: "nat option"
  ex_ended :: bool

record heap =
  h_executions :: "execution list"
  h_streams :: "dataStream list"
  h_iterables :: "asyncIterable list"
  h_barriers :: "bool list"

definition emptyHeap :: heap where
  "emptyHeap = \<lparr>h_executions = [], h_streams = [], h_iterables = [], h_barriers = []\<rparr>"

text \<open>What \<^verbatim>\<open>read()\<close> hands to the consumer: the shared constant
  \<^verbatim>\<open>AsyncIterableObject.EMPTY\<close> or an iterable of the store. Modelled from the spec:
  \<^verbatim>\<open>EMPTY\<close>, not among the sources, is the immediately terminated empty sequence.\<close>

datatype reader = EMPTY | Iterable nat

text \<open>What a promise returned by \<^verbatim>\<open>flush()\<close> waits for: nothing (\<^verbatim>\<open>await undefined\<close>), or
  the completion of each of the listed iterables (\<^verbatim>\<open>Promise.all\<close> over \<^verbatim>\<open>toPromise()\<close>).\<close>

datatype awaited = AwaitNothing | AwaitAll "nat list"

section \<open>Async iterables\<close>

definition newIterable :: "nat \<Rightarrow> nat \<Rightarrow> asyncIterable" where
  "newIterable s b =
     \<lparr>it_stream = s, it_barrier = b, it_started = False, it_done = False,
      it_results = [], it_cursor = 0, it_sawEnd = False\<rparr>"

definition updIterable :: "nat \<Rightarrow> (asyncIterable \<Rightarrow> asyncIterable) \<Rightarrow> heap \<Rightarrow> heap" where
  "updIterable r f h = h\<lparr>h_iterables := (h_iterables h)[r := f (h_iterables h ! r)]\<rparr>"

definition updStream :: "nat \<Rightarrow> (dataStream \<Rightarrow> dataStream) \<Rightarrow> heap \<Rightarrow> heap" where
  "updStream s f h = h\<lparr>h_streams := (h_streams h)[s := f (h_streams h ! s)]\<rparr>"

definition updExecution :: "nat \<Rightarrow> (execution \<Rightarrow> execution) \<Rightarrow> heap \<Rightarrow> heap" where
  "updExecution e f h = h\<lparr>h_executions := (h_executions h)[e := f (h_executions h ! e)]\<rparr>"

text \<open>Modelled from the spec: \<^verbatim>\<open>emitter.emitOne(data)\<close> of \<^verbatim>\<open>AsyncIterableObject\<close> queues
  the chunk for the reader, unless the iterable is complete.\<close>

definition emitOne :: "string \<Rightarrow> nat \<Rightarrow> heap \<Rightarrow> heap" where
  "emitOne d r h =
     (if it_done (h_iterables h ! r) then h
      else updIterable r (\<lambda>i. i\<lparr>it_results := it_results i @ [d]\<rparr>) h)"

text \<open>The executor of iterable \<open>r\<close> runs: \<^verbatim>\<open>this._emitters.push(emitter)\<close>, then it waits at
  \<^verbatim>\<open>await barrier.wait()\<close>. It runs once; when \<^verbatim>\<open>AsyncIterableObject\<close> runs it (in
  the constructor or in a later microtask) is left open: it is a step of its own.\<close>

definition runExecutor :: "nat \<Rightarrow> heap \<Rightarrow> heap" where
  "runExecutor r h =
     (if r < length (h_iterables h) \<and> \<not> it_started (h_iterables h ! r)
      then updStream (it_stream (h_iterables h ! r))
             (\<lambda>s. s\<lparr>ds_emitters := ds_emitters s @ [r]\<rparr>)
             (updIterable r (\<lambda>i. i\<lparr>it_started := True\<rparr>) h)
      else h)"

text \<open>Modelled from the spec: the executor of \<open>r\<close> resumes behind \<^verbatim>\<open>await barrier.wait()\<close>
  and returns, which completes the iterable: possible once it has started and its
  barrier is open.\<close>

definition settle :: "nat \<Rightarrow> heap \<Rightarrow> heap" where
  "settle r h =
     (if r < length (h_iterables h) \<and> it_started (h_iterables h ! r)
         \<and> h_barriers h ! it_barrier (h_iterables h ! r)
      then updIterable r (\<lambda>i. i\<lparr>it_done := True\<rparr>) h
      else h)"

text \<open>Modelled from the spec: the consumer asks iterable \<open>r\<close> for its next element: it
  gets the next queued chunk, or sees the end of a complete iterable, or stays
  suspended.\<close>

definition next_chunk :: "nat \<Rightarrow> heap \<Rightarrow> heap" where
  "next_chunk r h =
     (if r < length (h_iterables h) then
        (if it_cursor (h_iterables h ! r) < length (it_results (h_iterables h ! r))
         then updIterable r (\<lambda>i. i\<lparr>it_cursor := Suc (it_cursor i)\<rparr>) h
         else if it_done (h_iterables h ! r)
         then updIterable r (\<lambda>i. i\<lparr>it_sawEnd := True\<rparr>) h
         else h)
      else h)"

text \<open>Modelled from the spec: the chunks a reader yields when driven to its end, whether
  its sequence is complete, and whether a promise is resolved. \<^verbatim>\<open>EMPTY\<close> yields no chunk
  and is terminated from the start; \<^verbatim>\<open>toPromise()\<close> of an iterable resolves when the
  iterable is complete.\<close>

definition chunks :: "reader \<Rightarrow> heap \<Rightarrow> string list" where
  "chunks rd h = (case rd of EMPTY \<Rightarrow> [] | Iterable r \<Rightarrow> it_results (h_iterables h ! r))"

definition terminated :: "reader \<Rightarrow> heap \<Rightarrow> bool" where
  "terminated rd h = (case rd of EMPTY \<Rightarrow> True | Iterable r \<Rightarrow> it_done (h_iterables h ! r))"

definition resolved :: "awaited \<Rightarrow> heap \<Rightarrow> bool" where
  "resolved a h =
     (case a of AwaitNothing \<Rightarrow> True
      | AwaitAll rs \<Rightarrow> list_all (\<lambda>r. it_done (h_iterables h ! r)) rs)"

section \<open>ShellExecutionDataStream\<close>

definition newDataStream :: dataStream where
  "newDataStream = \<lparr>ds_barrier = None, ds_iterables = [], ds_emitters = []\<rparr>"

text \<open>The part of \<^verbatim>\<open>createIterable\<close> behind the barrier's creation: build the iterable
  with the captured barrier \<open>b\<close> and push it on \<^verbatim>\<open>_iterables\<close>.\<close>

definition pushIterable :: "nat \<Rightarrow> nat \<Rightarrow> heap \<Rightarrow> nat \<times> heap" where
  "pushIterable s b h =
     (length (h_iterables h),
      updStream s (\<lambda>st. st\<lparr>ds_iterables := ds_iterables st @ [length (h_iterables h)]\<rparr>)
        (h\<lparr>h_iterables := h_iterables h @ [newIterable s b]\<rparr>))"

definition ds_createIterable :: "nat \<Rightarrow> heap \<Rightarrow> nat \<times> heap" where
  "ds_createIterable s h =
     (case ds_barrier (h_streams h ! s) of
        None \<Rightarrow>
          pushIterable s (length (h_barriers h))
            (updStream s (\<lambda>st. st\<lparr>ds_barrier := Some (length (h_barriers h))\<rparr>)
               (h\<lparr>h_barriers := h_barriers h @ [False]\<rparr>))
      | Some b \<Rightarrow> pushIterable s b h)"

definition ds_emitData :: "nat \<Rightarrow> string \<Rightarrow> heap \<Rightarrow> heap" where
  "ds_emitData s d h = fold (emitOne d) (ds_emitters (h_streams h ! s)) h"

definition ds_endExecution :: "nat \<Rightarrow> heap \<Rightarrow> heap" where
  "ds_endExecution s h =
     updStream s (\<lambda>st. st\<lparr>ds_barrier := None\<rparr>)
       (case ds_barrier (h_streams h ! s) of
          None \<Rightarrow> h
        | Some b \<Rightarrow> h\<lparr>h_barriers := (h_barriers h)[b := True]\<rparr>)"

definition ds_flush :: "nat \<Rightarrow> heap \<Rightarrow> awaited" where
  "ds_flush s h = AwaitAll (ds_iterables (h_streams h ! s))"

section \<open>InternalTerminalShellExecution\<close>

definition newExecution :: "commandLine \<Rightarrow> uri option \<Rightarrow> execution" where
  "newExecution c w =
     \<lparr>ex_commandLine = c, ex_cwd = w, ex_dataStream = None, ex_ended = False\<rparr>"

text \<open>\<^verbatim>\<open>value.read()\<close>, that is \<^verbatim>\<open>_createDataStream()\<close>.\<close>

definition createDataStream :: "nat \<Rightarrow> heap \<Rightarrow> reader \<times> heap" where
  "createDataStream e h =
     (case ex_dataStream (h_executions h ! e) of
        None \<Rightarrow>
          (if ex_ended (h_executions h ! e) then (EMPTY, h)
           else
             (let (r, h') =
                    ds_createIterable (length (h_streams h))
                      (updExecution e (\<lambda>x. x\<lparr>ex_dataStream := Some (length (h_streams h))\<rparr>)
                         (h\<lparr>h_streams := h_streams h @ [newDataStream]\<rparr>))
              in (Iterable r, h')))
      | Some s \<Rightarrow> (let (r, h') = ds_createIterable s h in (Iterable r, h')))"

definition ex_emitData :: "nat \<Rightarrow> string \<Rightarrow> heap \<Rightarrow> heap" where
  "ex_emitData e d h =
     (case ex_dataStream (h_executions h ! e) of
        None \<Rightarrow> h
      | Some s \<Rightarrow> ds_emitData s d h)"

definition setCommandLine :: "nat \<Rightarrow> commandLine option \<Rightarrow> heap \<Rightarrow> heap" where
  "setCommandLine e c h =
     (case c of None \<Rightarrow> h | Some c' \<Rightarrow> updExecution e (\<lambda>x. x\<lparr>ex_commandLine := c'\<rparr>) h)"

definition endExecution :: "nat \<Rightarrow> commandLine option \<Rightarrow> heap \<Rightarrow> heap" where
  "endExecution e c h =
     updExecution e (\<lambda>x. x\<lparr>ex_dataStream := None, ex_ended := True\<rparr>)
       (case ex_dataStream (h_executions h ! e) of
          None \<Rightarrow> setCommandLine e c h
        | Some s \<Rightarrow> ds_endExecution s (setCommandLine e c h))"

text \<open>\<^verbatim>\<open>flush()\<close> reads \<^verbatim>\<open>this._dataStream\<close> when it is called: the returned promise waits for
  the stream's \<^verbatim>\<open>flush()\<close> if the field holds a stream, and for nothing otherwise.\<close>

definition flush :: "nat \<Rightarrow> heap \<Rightarrow> awaited" where
  "flush e h =
     (case ex_dataStream (h_executions h ! e) of
        None \<Rightarrow> AwaitNothing
      | Some s \<Rightarrow> ds_flush s h)"

section \<open>InternalTerminalShellIntegration\<close>

text \<open>
  Everything that reaches the outside of a session is logged in \<open>fired\<close>, in order:
  the three events of the API and the request sent to the transport
  (\<^verbatim>\<open>_proxy.$executeCommand\<close>). The session's own emitters
  (\<^verbatim>\<open>_onDidRequestShellExecution\<close>, \<^verbatim>\<open>_onDidRequestEndExecution\<close>,
  \<^verbatim>\<open>_onDidRequestChangeShellIntegration\<close>) are forwarded by the listeners that
  \<^verbatim>\<open>$shellIntegrationChange\<close> adds to the session's store; once the session is disposed
  they have no listener left. The start event is fired on the emitter of the service
  itself. \<^verbatim>\<open>_onDidRequestNewExecution\<close> has no listener in the source and is left out.
\<close>

datatype event =
    DidChangeTerminalShellIntegration
  | DidStartTerminalShellExecution nat
  | DidEndTerminalShellExecution nat "int option"
  | ExecuteCommandRequest string

record shellEnv =
  env_value :: "string \<Rightarrow> string option option"
  env_isTrusted :: bool

text \<open>The callback that \<^verbatim>\<open>endShellExecution\<close> passes to \<^verbatim>\<open>flush().then\<close>: the execution
  and exit code it captured, and what the promise waits for.\<close>

record pendingEnd =
  pe_execution :: nat
  pe_exitCode :: "int option"
  pe_awaits :: awaited

record session =
  activeExecutions :: "nat list"
  currentExecution :: "nat option"
  env :: "shellEnv option"
  cwd :: "uri option"
  hasRichCommandDetection :: bool
  disposed :: bool
  heap :: heap
  pendingEnds :: "pendingEnd list"
  fired :: "event list"
  warnings :: nat

definition newSession :: session where
  "newSession =
     \<lparr>activeExecutions = [], currentExecution = None, env = None, cwd = None,
      hasRichCommandDetection = False, disposed = False, heap = emptyHeap,
      pendingEnds = [], fired = [], warnings = 0\<rparr>"

text \<open>Modelled from the spec: \<^verbatim>\<open>Emitter\<close> of \<^verbatim>\<open>base/common/event\<close> is not among the sources.
  \<^verbatim>\<open>fire\<close> on an emitter of the session hands the event to its listeners; a disposed
  session has none.\<close>

definition fire :: "event \<Rightarrow> session \<Rightarrow> session" where
  "fire ev s = (if disposed s then s else s\<lparr>fired := fired s @ [ev]\<rparr>)"

text \<open>\<^verbatim>\<open>fire\<close> on an emitter of the service, which outlives the session.\<close>

definition fireService :: "event \<Rightarrow> session \<Rightarrow> session" where
  "fireService ev s = s\<lparr>fired := fired s @ [ev]\<rparr>"

definition fireChangeEvent :: "session \<Rightarrow> session" where
  "fireChangeEvent s = fire DidChangeTerminalShellIntegration s"

text \<open>\<^verbatim>\<open>a ?? b\<close>\<close>

definition orElse :: "'a option \<Rightarrow> 'a option \<Rightarrow> 'a option" where
  "orElse a b = (case a of None \<Rightarrow> b | Some x \<Rightarrow> Some x)"

definition allocExecution :: "commandLine \<Rightarrow> uri option \<Rightarrow> session \<Rightarrow> session" where
  "allocExecution c w s =
     s\<lparr>heap := (heap s)\<lparr>h_executions := h_executions (heap s) @ [newExecution c w]\<rparr>\<rparr>"

definition requestNewShellExecution :: "commandLine \<Rightarrow> uri option \<Rightarrow> session \<Rightarrow> nat \<times> session" where
  "requestNewShellExecution c w s =
     (length (h_executions (heap s)),
      (allocExecution c (orElse w (cwd s)) s)
        \<lparr>activeExecutions := activeExecutions s @ [length (h_executions (heap s))]\<rparr>)"

text \<open>The regular expressions of \<^verbatim>\<open>executeCommand\<close>: \<^verbatim>\<open>/["'`]/\<close> and \<^verbatim>\<open>/\s/\<close>, the latter on
  the 8-bit characters of \<open>string\<close> (TAB, LF, VT, FF, CR, space, no-break space).\<close>

definition isQuote :: "char \<Rightarrow> bool" where
  "isQuote c = (c = CHR 0x22 \<or> c = CHR 0x27 \<or> c = CHR 0x60)"

definition isWhiteSpace :: "char \<Rightarrow> bool" where
  "isWhiteSpace c =
     (c = CHR 0x09 \<or> c = CHR 0x0A \<or> c = CHR 0x0B \<or> c = CHR 0x0C \<or> c = CHR 0x0D
      \<or> c = CHR 0x20 \<or> c = CHR 0xA0)"

definition wrapInQuotes :: "string \<Rightarrow> bool" where
  "wrapInQuotes arg = (\<not> list_ex isQuote arg \<and> list_ex isWhiteSpace arg)"

fun appendArgs :: "string \<Rightarrow> string list \<Rightarrow> string" where
  "appendArgs v [] = v"
| "appendArgs v (arg # args) =
     appendArgs
       (if wrapInQuotes arg then v @ [CHR 0x20, CHR 0x22] @ arg @ [CHR 0x22]
        else v @ [CHR 0x20] @ arg)
       args"

definition argsCommandLine :: "string \<Rightarrow> string list option \<Rightarrow> string" where
  "argsCommandLine commandLineOrExecutable args =
     (case args of None \<Rightarrow> commandLineOrExecutable
      | Some as \<Rightarrow> appendArgs commandLineOrExecutable as)"

definition executeCommand :: "string \<Rightarrow> string list option \<Rightarrow> session \<Rightarrow> nat \<times> session" where
  "executeCommand commandLineOrExecutable args s =
     requestNewShellExecution
       \<lparr>cl_value = argsCommandLine commandLineOrExecutable args,
        cl_confidence = High, cl_isTrusted = True\<rparr>
       (cwd s)
       (fire (ExecuteCommandRequest (argsCommandLine commandLineOrExecutable args)) s)"

text \<open>\<^verbatim>\<open>Array.prototype.findIndex\<close>, with \<open>None\<close> for -1.\<close>

fun findIndex :: "('a \<Rightarrow> bool) \<Rightarrow> 'a list \<Rightarrow> nat option" where
  "findIndex P [] = None"
| "findIndex P (x # xs) = (if P x then Some 0 else map_option Suc (findIndex P xs))"

text \<open>The first block of \<^verbatim>\<open>startShellExecution\<close>: an execution that is still current is
  ended with no command line, and its end event is fired with no exit code.\<close>

definition endCurrent :: "session \<Rightarrow> session" where
  "endCurrent s =
     (case currentExecution s of
        None \<Rightarrow> s
      | Some e \<Rightarrow>
          fire (DidEndTerminalShellExecution e None)
            (s\<lparr>warnings := (if hasRichCommandDetection s then Suc (warnings s) else warnings s),
               heap := endExecution e None (heap s)\<rparr>))"

text \<open>The second block: the pending execution that the start is taken to confirm,
  removed from \<^verbatim>\<open>_activeExecutions\<close>.\<close>

definition pickExecution :: "commandLine \<Rightarrow> session \<Rightarrow> nat option \<times> session" where
  "pickExecution c s =
     (if cl_confidence c = High then
        (case findIndex (\<lambda>e. cl_value (ex_commandLine (h_executions (heap s) ! e)) = cl_value c)
                (activeExecutions s) of
           None \<Rightarrow> (None, s)
         | Some i \<Rightarrow>
             (Some (activeExecutions s ! i),
              s\<lparr>activeExecutions := take i (activeExecutions s) @ drop (Suc i) (activeExecutions s)\<rparr>))
      else
        (case activeExecutions s of
           [] \<Rightarrow> (None, s)
         | e # es \<Rightarrow> (Some e, s\<lparr>activeExecutions := es\<rparr>)))"

definition makeCurrent :: "nat \<Rightarrow> session \<Rightarrow> session" where
  "makeCurrent e s =
     fireService (DidStartTerminalShellExecution e) (s\<lparr>currentExecution := Some e\<rparr>)"

definition startShellExecution :: "commandLine \<Rightarrow> uri option \<Rightarrow> session \<Rightarrow> session" where
  "startShellExecution c w s =
     (case pickExecution c (endCurrent s) of
        (Some e, s') \<Rightarrow> makeCurrent e s'
      | (None, s') \<Rightarrow>
          makeCurrent (length (h_executions (heap s'))) (allocExecution c (orElse w (cwd s')) s'))"

definition emitData :: "string \<Rightarrow> session \<Rightarrow> session" where
  "emitData d s =
     (case currentExecution s of
        None \<Rightarrow> s
      | Some e \<Rightarrow> s\<lparr>heap := ex_emitData e d (heap s)\<rparr>)"

text \<open>\<^verbatim>\<open>endShellExecution\<close> up to \<^verbatim>\<open>flush().then(...)\<close>: the callback is suspended on the
  promise that \<^verbatim>\<open>flush()\<close> returns.\<close>

definition endShellExecution :: "commandLine option \<Rightarrow> int option \<Rightarrow> session \<Rightarrow> session" where
  "endShellExecution c exitCode s =
     (case currentExecution s of
        None \<Rightarrow> s
      | Some e \<Rightarrow>
          s\<lparr>heap := endExecution e c (heap s),
            pendingEnds := pendingEnds s @
              [\<lparr>pe_execution = e, pe_exitCode = exitCode,
                pe_awaits = flush e (endExecution e c (heap s))\<rparr>]\<rparr>)"

text \<open>The suspended callback number \<open>k\<close> runs, once its promise is resolved.\<close>

definition endCallback :: "pendingEnd \<Rightarrow> session \<Rightarrow> session" where
  "endCallback p s =
     (if currentExecution s = Some (pe_execution p)
      then (fire (DidEndTerminalShellExecution (pe_execution p) (pe_exitCode p)) s)
             \<lparr>currentExecution := None\<rparr>
      else s)"

definition resumeEnd :: "nat \<Rightarrow> session \<Rightarrow> session" where
  "resumeEnd k s =
     (if k < length (pendingEnds s) \<and> resolved (pe_awaits (pendingEnds s ! k)) (heap s)
      then endCallback (pendingEnds s ! k)
             (s\<lparr>pendingEnds := take k (pendingEnds s) @ drop (Suc k) (pendingEnds s)\<rparr>)
      else s)"

definition setHasRichCommandDetection :: "bool \<Rightarrow> session \<Rightarrow> session" where
  "setHasRichCommandDetection v s =
     (if hasRichCommandDetection s \<noteq> v
      then fireChangeEvent (s\<lparr>hasRichCommandDetection := v\<rparr>)
      else s)"

text \<open>The loop of \<^verbatim>\<open>setEnv\<close>: \<^verbatim>\<open>env[keys[i]] = values[i]\<close> on a plain object, where
  \<^verbatim>\<open>values[i]\<close> is \<^verbatim>\<open>undefined\<close> behind the end of \<^verbatim>\<open>values\<close>. The map holds the own
  properties of the object. The key \<^verbatim>\<open>__proto__\<close> gets none: the assignment reaches the
  setter of \<^verbatim>\<open>Object.prototype\<close>, which ignores a string and \<^verbatim>\<open>undefined\<close>.\<close>

definition zipEnv :: "string list \<Rightarrow> string list \<Rightarrow> string \<Rightarrow> string option option" where
  "zipEnv keys vals =
     fold (\<lambda>i m. if keys ! i = ''__proto__'' then m
                 else m(keys ! i \<mapsto> (if i < length vals then Some (vals ! i) else None)))
       [0..<length keys] Map.empty"

definition setEnv :: "string list \<Rightarrow> string list \<Rightarrow> bool \<Rightarrow> session \<Rightarrow> session" where
  "setEnv keys vals isTrusted s =
     fireChangeEvent (s\<lparr>env := Some \<lparr>env_value = zipEnv keys vals, env_isTrusted = isTrusted\<rparr>\<rparr>)"

definition setCwd :: "uri option \<Rightarrow> session \<Rightarrow> session" where
  "setCwd w s =
     (if (case cwd s of
            Some u \<Rightarrow> (case w of None \<Rightarrow> True | Some v \<Rightarrow> uri_toString u \<noteq> uri_toString v)
          | None \<Rightarrow> cwd s \<noteq> w)
      then fireChangeEvent (s\<lparr>cwd := w\<rparr>)
      else s)"

definition dispose :: "session \<Rightarrow> session" where
  "dispose s = s\<lparr>disposed := True\<rparr>"

section \<open>Runs of a session\<close>

text \<open>
  All that happens to a session, one step at a time: the calls of the service on it, the
  calls of an extension on its public objects (\<open>ExecuteCommand\<close>, \<open>Read\<close>, \<open>NextChunk\<close>),
  and the microtasks that run in between (\<open>RunExecutor\<close>, \<open>Settle\<close>, \<open>ResumeEnd\<close>).
  Handlers run to completion, so a run is a list of steps; a step that cannot happen in
  the given state (a reference to no object, a promise that is not resolved) changes
  nothing.
\<close>

datatype signal =
    ExecuteCommand string "string list option"
  | ShellExecutionStart commandLine "uri option"
  | ShellExecutionEnd "commandLine option" "int option"
  | ShellExecutionData string
  | ShellEnvChange "string list" "string list" bool
  | CwdChange "uri option"
  | HasRichCommandDetection bool
  | Dispose
  | Read nat
  | RunExecutor nat
  | Settle nat
  | NextChunk nat
  | ResumeEnd nat

fun step :: "signal \<Rightarrow> session \<Rightarrow> session" where
  "step (ExecuteCommand c args) s = snd (executeCommand c args s)"
| "step (ShellExecutionStart c w) s = startShellExecution c w s"
| "step (ShellExecutionEnd c x) s = endShellExecution c x s"
| "step (ShellExecutionData d) s = emitData d s"
| "step (ShellEnvChange ks vs t) s = setEnv ks vs t s"
| "step (CwdChange w) s = setCwd w s"
| "step (HasRichCommandDetection v) s = setHasRichCommandDetection v s"
| "step Dispose s = dispose s"
| "step (Read e) s =
     (if e < length (h_executions (heap s))
      then s\<lparr>heap := snd (createDataStream e (heap s))\<rparr> else s)"
| "step (RunExecutor r) s = s\<lparr>heap := runExecutor r (heap s)\<rparr>"
| "step (Settle r) s = s\<lparr>heap := settle r (heap s)\<rparr>"
| "step (NextChunk r) s = s\<lparr>heap := next_chunk r (heap s)\<rparr>"
| "step (ResumeEnd k) s = resumeEnd k s"

fun run :: "signal list \<Rightarrow> session \<Rightarrow> session" where
  "run [] s = s"
| "run (x # xs) s = run xs (step x s)"

section \<open>ExtHostTerminalShellIntegration\<close>

text \<open>
  The service maps terminal handles to sessions. \<open>terminals\<close> stands for the terminal
  service, which is not among the sources: the handles that \<^verbatim>\<open>getTerminalById\<close>
  resolves. \<open>willDisposeListeners\<close> are the handles of the terminals on which
  \<^verbatim>\<open>$shellIntegrationChange\<close> has registered its \<^verbatim>\<open>onWillDispose\<close> listener.
\<close>

record service =
  terminals :: "nat list"
  activeShellIntegrations :: "nat \<Rightarrow> session option"
  willDisposeListeners :: "nat list"

text \<open>\<^verbatim>\<open>this._activeShellIntegrations.get(instanceId)?.f(...)\<close>\<close>

definition onSession :: "nat \<Rightarrow> (session \<Rightarrow> session) \<Rightarrow> service \<Rightarrow> service" where
  "onSession i f v =
     (case activeShellIntegrations v i of
        None \<Rightarrow> v
      | Some s \<Rightarrow> v\<lparr>activeShellIntegrations := (activeShellIntegrations v)(i \<mapsto> f s)\<rparr>)"

definition shellIntegrationChange :: "nat \<Rightarrow> service \<Rightarrow> service" where
  "shellIntegrationChange i v =
     (if i \<notin> set (terminals v) then v
      else
        onSession i (fireService DidChangeTerminalShellIntegration)
          (case activeShellIntegrations v i of
             None \<Rightarrow>
               v\<lparr>activeShellIntegrations := (activeShellIntegrations v)(i \<mapsto> newSession),
                 willDisposeListeners := willDisposeListeners v @ [i]\<rparr>
           | Some s \<Rightarrow> v))"

definition shellExecutionStart ::
  "nat \<Rightarrow> string \<Rightarrow> confidence \<Rightarrow> bool \<Rightarrow> uri option \<Rightarrow> service \<Rightarrow> service" where
  "shellExecutionStart i commandLineValue commandLineConfidence isTrusted w v =
     onSession i
       (startShellExecution
          \<lparr>cl_value = commandLineValue, cl_confidence = commandLineConfidence,
           cl_isTrusted = isTrusted\<rparr> w)
       (if activeShellIntegrations v i = None then shellIntegrationChange i v else v)"

definition shellExecutionEnd ::
  "nat \<Rightarrow> string \<Rightarrow> confidence \<Rightarrow> bool \<Rightarrow> int option \<Rightarrow> service \<Rightarrow> service" where
  "shellExecutionEnd i commandLineValue commandLineConfidence isTrusted exitCode v =
     onSession i
       (endShellExecution
          (Some \<lparr>cl_value = commandLineValue, cl_confidence = commandLineConfidence,
                 cl_isTrusted = isTrusted\<rparr>) exitCode)
       v"

definition shellExecutionData :: "nat \<Rightarrow> string \<Rightarrow> service \<Rightarrow> service" where
  "shellExecutionData i d v = onSession i (emitData d) v"

definition shellEnvChange :: "nat \<Rightarrow> string list \<Rightarrow> string list \<Rightarrow> bool \<Rightarrow> service \<Rightarrow> service" where
  "shellEnvChange i shellEnvKeys shellEnvValues isTrusted v =
     onSession i (setEnv shellEnvKeys shellEnvValues isTrusted) v"

definition cwdChange :: "nat \<Rightarrow> uri option \<Rightarrow> service \<Rightarrow> service" where
  "cwdChange i w v = onSession i (setCwd w) v"

definition closeTerminal :: "nat \<Rightarrow> service \<Rightarrow> service" where
  "closeTerminal i v =
     (onSession i dispose v)
       \<lparr>activeShellIntegrations := (activeShellIntegrations (onSession i dispose v))(i := None)\<rparr>"

definition setHasRichCommandDetectionOf :: "nat \<Rightarrow> bool \<Rightarrow> service \<Rightarrow> service" where
  "setHasRichCommandDetectionOf i b v = onSession i (setHasRichCommandDetection b) v"

text \<open>The listener registered on the terminal's \<^verbatim>\<open>onWillDispose\<close>.\<close>

definition terminalWillDispose :: "nat \<Rightarrow> service \<Rightarrow> service" where
  "terminalWillDispose i v =
     (if i \<in> set (willDisposeListeners v) then onSession i dispose v else v)"

text \<open>The inbound signals of the protocol, each for a terminal handle.\<close>

datatype inbound =
    IntegrationChange
  | ExecutionStart string confidence bool "uri option"
  | ExecutionEnd string confidence bool "int option"
  | ExecutionData string
  | EnvChange "string list" "string list" bool
  | WorkingDirectoryChange "uri option"
  | RichCommandDetection bool
  | CloseTerminal

fun deliver :: "nat \<Rightarrow> inbound \<Rightarrow> service \<Rightarrow> service" where
  "deliver i IntegrationChange v = shellIntegrationChange i v"
| "deliver i (ExecutionStart t c tr w) v = shellExecutionStart i t c tr w v"
| "deliver i (ExecutionEnd t c tr x) v = shellExecutionEnd i t c tr x v"
| "deliver i (ExecutionData d) v = shellExecutionData i d v"
| "deliver i (EnvChange ks vs tr) v = shellEnvChange i ks vs tr v"
| "deliver i (WorkingDirectoryChange w) v = cwdChange i w v"
| "deliver i (RichCommandDetection b) v = setHasRichCommandDetectionOf i b v"
| "deliver i CloseTerminal v = closeTerminal i v"

text \<open>The signals on which the source creates a missing session.\<close>

fun createsSession :: "inbound \<Rightarrow> bool" where
  "createsSession IntegrationChange = True"
| "createsSession (ExecutionStart t c tr w) = True"
| "createsSession _ = False"

text \<open>What an inbound signal does to the session it reaches.\<close>

fun sessionEffect :: "inbound \<Rightarrow> session \<Rightarrow> session" where
  "sessionEffect IntegrationChange s = s"
| "sessionEffect (ExecutionStart t c tr w) s =
     startShellExecution \<lparr>cl_value = t, cl_confidence = c, cl_isTrusted = tr\<rparr> w s"
| "sessionEffect (ExecutionEnd t c tr x) s =
     endShellExecution (Some \<lparr>cl_value = t, cl_confidence = c, cl_isTrusted = tr\<rparr>) x s"
| "sessionEffect (ExecutionData d) s = emitData d s"
| "sessionEffect (EnvChange ks vs tr) s = setEnv ks vs tr s"
| "sessionEffect (WorkingDirectoryChange w) s = setCwd w s"
| "sessionEffect (RichCommandDetection b) s = setHasRichCommandDetection b s"
| "sessionEffect CloseTerminal s = dispose s"

section \<open>Observations used in the statements\<close>

definition cmdText :: "session \<Rightarrow> nat \<Rightarrow> string" where
  "cmdText s e = cl_value (ex_commandLine (h_executions (heap s) ! e))"

fun startOf :: "event \<Rightarrow> nat list" where
  "startOf (DidStartTerminalShellExecution e) = [e]"
| "startOf _ = []"

fun endOf :: "event \<Rightarrow> nat list" where
  "endOf (DidEndTerminalShellExecution e x) = [e]"
| "endOf _ = []"

text \<open>The executions for which a start event, or an end event, has been fired, in order.\<close>

definition startEvents :: "event list \<Rightarrow> nat list" where
  "startEvents evs = concat (map startOf evs)"

definition endEvents :: "event list \<Rightarrow> nat list" where
  "endEvents evs = concat (map endOf evs)"

text \<open>The stream that a chunk given to the session's \<^verbatim>\<open>emitData\<close> is pushed to.\<close>

definition currentStream :: "session \<Rightarrow> nat option" where
  "currentStream s =
     (case currentExecution s of
        None \<Rightarrow> None
      | Some e \<Rightarrow> ex_dataStream (h_executions (heap s) ! e))"

text \<open>The chunks pushed to stream \<open>st\<close> in the course of a run, in push order.\<close>

fun pushedTo :: "nat \<Rightarrow> signal list \<Rightarrow> session \<Rightarrow> string list" where
  "pushedTo st [] s = []"
| "pushedTo st (x # xs) s =
     (case x of
        ShellExecutionData d \<Rightarrow> (if currentStream s = Some st then [d] else [])
      | _ \<Rightarrow> [])
     @ pushedTo st xs (step x s)"

text \<open>The command line of \<^verbatim>\<open>executeCommand(executable, args)\<close> in the words of the
  specification: each argument behind a single space, in double quotes exactly when it
  contains whitespace and none of the three quote characters.\<close>

definition quoted_spec :: "string \<Rightarrow> string" where
  "quoted_spec arg =
     (if (\<exists>c\<in>set arg. isWhiteSpace c)
         \<and> (\<forall>c\<in>set arg. c \<noteq> CHR 0x22 \<and> c \<noteq> CHR 0x27 \<and> c \<noteq> CHR 0x60)
      then [CHR 0x22] @ arg @ [CHR 0x22]
      else arg)"

definition commandLine_spec :: "string \<Rightarrow> string list \<Rightarrow> string" where
  "commandLine_spec executable args =
     executable @ concat (map (\<lambda>arg. CHR 0x20 # quoted_spec arg) args)"

section \<open>Invariants of a session\<close>

text \<open>
  What every run keeps true of the queue, the current execution and the events fired so
  far: the pending executions are distinct, exist and have not started; the current
  execution has started and has no end event; an end event follows a start event; no
  execution has two start events or two end events; and, while the session is not
  disposed, an execution that has started and has no end event is the current one.
\<close>

definition queueInv ::
  "nat list \<Rightarrow> nat option \<Rightarrow> nat list \<Rightarrow> nat list \<Rightarrow> nat \<Rightarrow> bool \<Rightarrow> bool" where
  "queueInv pending current started ended n isDisposed \<longleftrightarrow>
     distinct pending
     \<and> (\<forall>e \<in> set pending. e < n \<and> e \<notin> set started)
     \<and> (\<forall>e. current = Some e \<longrightarrow> e \<in> set started \<and> e \<notin> set ended)
     \<and> set ended \<subseteq> set started
     \<and> (\<forall>e \<in> set started. e < n)
     \<and> distinct started
     \<and> distinct ended
     \<and> (\<not> isDisposed \<longrightarrow> (\<forall>e \<in> set started. e \<notin> set ended \<longrightarrow> current = Some e))"

definition sessionInv :: "session \<Rightarrow> bool" where
  "sessionInv s \<longleftrightarrow>
     queueInv (activeExecutions s) (currentExecution s) (startEvents (fired s))
       (endEvents (fired s)) (length (h_executions (heap s))) (disposed s)"

text \<open>The end event that the first block of \<^verbatim>\<open>startShellExecution\<close> fires.\<close>

definition forcedEnd :: "nat option \<Rightarrow> bool \<Rightarrow> nat list" where
  "forcedEnd current isDisposed =
     (case current of None \<Rightarrow> [] | Some e \<Rightarrow> if isDisposed then [] else [e])"

text \<open>Execution \<open>e\<close> exists, has ended and holds no stream.\<close>

definition endedAt :: "nat \<Rightarrow> heap \<Rightarrow> bool" where
  "endedAt e h \<longleftrightarrow>
     e < length (h_executions h) \<and> ex_ended (h_executions h ! e)
     \<and> ex_dataStream (h_executions h ! e) = None"

text \<open>
  What every run keeps true of the store, stated on its four lists: a stream held by
  an execution exists and is held by that execution only; the barrier of a stream
  exists, is closed and is the barrier of that stream only; an iterable names an
  existing stream and barrier; a complete iterable has an open barrier; the iterables
  of a stream held by an execution wait for the stream's barrier; the emitters of a
  stream are, each once, the started iterables built by it; an iterable whose executor
  has not run has an empty queue.
\<close>

definition heapInv ::
  "execution list \<Rightarrow> dataStream list \<Rightarrow> asyncIterable list \<Rightarrow> bool list \<Rightarrow> bool" where
  "heapInv E S I B \<longleftrightarrow>
     (\<forall>e s. e < length E \<and> ex_dataStream (E ! e) = Some s \<longrightarrow> s < length S)
     \<and> (\<forall>e e' s. e < length E \<and> e' < length E \<and> ex_dataStream (E ! e) = Some s
            \<and> ex_dataStream (E ! e') = Some s \<longrightarrow> e = e')
     \<and> (\<forall>s b. s < length S \<and> ds_barrier (S ! s) = Some b \<longrightarrow> b < length B \<and> \<not> B ! b)
     \<and> (\<forall>s s' b. s < length S \<and> s' < length S \<and> ds_barrier (S ! s) = Some b
            \<and> ds_barrier (S ! s') = Some b \<longrightarrow> s = s')
     \<and> (\<forall>r. r < length I \<longrightarrow> it_stream (I ! r) < length S \<and> it_barrier (I ! r) < length B)
     \<and> (\<forall>r. r < length I \<and> it_done (I ! r) \<longrightarrow> B ! it_barrier (I ! r))
     \<and> (\<forall>e r. e < length E \<and> r < length I
            \<and> ex_dataStream (E ! e) = Some (it_stream (I ! r))
            \<longrightarrow> ds_barrier (S ! it_stream (I ! r)) = Some (it_barrier (I ! r)))
     \<and> (\<forall>s. s < length S \<longrightarrow> distinct (ds_emitters (S ! s)))
     \<and> (\<forall>s r. s < length S \<longrightarrow>
            (r \<in> set (ds_emitters (S ! s))
             \<longleftrightarrow> r < length I \<and> it_started (I ! r) \<and> it_stream (I ! r) = s))
     \<and> (\<forall>r. r < length I \<and> \<not> it_started (I ! r) \<longrightarrow> it_results (I ! r) = [])"

definition hInv :: "heap \<Rightarrow> bool" where
  "hInv h \<longleftrightarrow> heapInv (h_executions h) (h_streams h) (h_iterables h) (h_barriers h)"

definition wellFormed :: "session \<Rightarrow> bool" where
  "wellFormed s \<longleftrightarrow> sessionInv s \<and> hInv (heap s)"

text \<open>Iterable \<open>r\<close> is in \<open>h'\<close> what it is in \<open>h\<close>: the same stream and queue, and
  started if it was.\<close>

definition keepsReader :: "nat \<Rightarrow> heap \<Rightarrow> heap \<Rightarrow> bool" where
  "keepsReader r h h' \<longleftrightarrow>
     r < length (h_iterables h')
     \<and> it_stream (h_iterables h' ! r) = it_stream (h_iterables h ! r)
     \<and> it_results (h_iterables h' ! r) = it_results (h_iterables h ! r)
     \<and> (it_started (h_iterables h ! r) \<longrightarrow> it_started (h_iterables h' ! r))"

section \<open>Example inputs\<close>

definition cmd :: "string \<Rightarrow> confidence \<Rightarrow> commandLine" where
  "cmd t c = \<lparr>cl_value = t, cl_confidence = c, cl_isTrusted = True\<rparr>"

text \<open>Two commands submitted through \<^verbatim>\<open>executeCommand\<close>, none started yet.\<close>

definition twoPending :: session where
  "twoPending = run [ExecuteCommand ''ls'' None, ExecuteCommand ''pwd'' None] newSession"

text \<open>A command started by the shell, with one reader attached to its output.\<close>

definition oneReader :: session where
  "oneReader = run [ShellExecutionStart (cmd ''ls'' High) None, Read 0, RunExecutor 0] newSession"

text \<open>The same, after a chunk has arrived and \<^verbatim>\<open>read()\<close> has been called once more.\<close>

definition secondReader :: session where
  "secondReader =
     run [ShellExecutionStart (cmd ''ls'' High) None, Read 0, RunExecutor 0,
          ShellExecutionData ''x'', Read 0] newSession"

text \<open>A command started by the shell, and \<^verbatim>\<open>read()\<close> called on it; the executor of the
  iterable has not run.\<close>

definition afterRead :: session where
  "afterRead = run [ShellExecutionStart (cmd ''ls'' High) None, Read 0] newSession"

text \<open>The same, after a chunk has arrived.\<close>

definition afterGap :: session where
  "afterGap =
     run [ShellExecutionStart (cmd ''ls'' High) None, Read 0, ShellExecutionData ''a'']
       newSession"

text \<open>A session that knows its working directory.\<close>

definition atHome :: session where
  "atHome = run [CwdChange (Some (URI ''file:///home''))] newSession"

text \<open>A service that knows terminal 1 and has no session yet.\<close>

definition freshService :: service where
  "freshService =
     \<lparr>terminals = [1], activeShellIntegrations = (\<lambda>i. None), willDisposeListeners = []\<rparr>"

section \<open>Properties\<close>

subsection \<open>Evaluation and frame lemmas\<close>

lemma nth_upd:
  "xs[i := v] ! j = (if i = j \<and> i < length xs then v else xs ! j)"
  by (cases "i < length xs") (auto simp: nth_list_update list_update_beyond)

lemmas heap_defs =
  emptyHeap_def newIterable_def updIterable_def updStream_def updExecution_def emitOne_def
  runExecutor_def settle_def next_chunk_def newDataStream_def pushIterable_def
  ds_createIterable_def ds_emitData_def ds_endExecution_def ds_flush_def newExecution_def
  createDataStream_def ex_emitData_def setCommandLine_def endExecution_def flush_def

lemmas session_defs =
  newSession_def fire_def fireService_def fireChangeEvent_def orElse_def allocExecution_def
  requestNewShellExecution_def argsCommandLine_def executeCommand_def endCurrent_def
  pickExecution_def makeCurrent_def startShellExecution_def emitData_def
  endShellExecution_def endCallback_def resumeEnd_def setHasRichCommandDetection_def
  setEnv_def setCwd_def dispose_def

lemma twoPending_eval:
  "activeExecutions twoPending = [0, 1]"
  "cmdText twoPending 0 = ''ls''" "cmdText twoPending (Suc 0) = ''pwd''"
  "length (h_executions (heap twoPending)) = 2"
  by (simp_all add: twoPending_def cmdText_def heap_defs session_defs)

lemma findIndex_first:
  "P e \<Longrightarrow> list_all (\<lambda>x. \<not> P x) pre \<Longrightarrow> findIndex P (pre @ e # post) = Some (length pre)"
  by (induction pre) auto

lemma findIndex_None: "findIndex P xs = None \<longleftrightarrow> list_all (\<lambda>x. \<not> P x) xs"
  by (induction xs) auto

lemma length_executions_endExecution [simp]:
  "length (h_executions (endExecution e c h)) = length (h_executions h)"
  by (simp add: endExecution_def updExecution_def setCommandLine_def ds_endExecution_def
      updStream_def split: option.splits)

lemma commandLine_endExecution_None [simp]:
  "ex_commandLine (h_executions (endExecution e None h) ! x) = ex_commandLine (h_executions h ! x)"
  by (simp add: endExecution_def updExecution_def setCommandLine_def ds_endExecution_def
      updStream_def nth_upd split: option.splits)

lemma endCurrent_frame [simp]:
  "activeExecutions (endCurrent s) = activeExecutions s"
  "cwd (endCurrent s) = cwd s"
  "length (h_executions (heap (endCurrent s))) = length (h_executions (heap s))"
  "cmdText (endCurrent s) x = cmdText s x"
  by (simp_all add: endCurrent_def fire_def cmdText_def split: option.splits)

subsection \<open>The correlation policy of a shell-reported start\<close>

text \<open>
  Claim C4. On a shell-reported start the execution made current is chosen as follows.
  With confidence High, the first pending execution whose command-line text equals the
  reported text is taken out of the queue (the entries before it stay) and becomes
  current. With confidence Low or Medium the head of the queue is taken, whatever its
  text. If the queue holds no match (High) or is empty (Low, Medium), a new execution
  is created from the reported command line, with the reported cwd or, when none is
  given, the cwd of the session; it has no stream and has not ended, it is the next
  object of the store, and the queue is left as it is.
\<close>

theorem startShellExecution_policy:
  "(cl_confidence c = High \<and> activeExecutions s = pre @ e # post
      \<and> cmdText s e = cl_value c \<and> list_all (\<lambda>x. cmdText s x \<noteq> cl_value c) pre
    \<longrightarrow> currentExecution (startShellExecution c w s) = Some e
        \<and> activeExecutions (startShellExecution c w s) = pre @ post)
   \<and> (cl_confidence c \<noteq> High \<and> activeExecutions s = e # es
    \<longrightarrow> currentExecution (startShellExecution c w s) = Some e
        \<and> activeExecutions (startShellExecution c w s) = es)
   \<and> ((if cl_confidence c = High
        then list_all (\<lambda>x. cmdText s x \<noteq> cl_value c) (activeExecutions s)
        else activeExecutions s = [])
    \<longrightarrow> currentExecution (startShellExecution c w s) = Some (length (h_executions (heap s)))
        \<and> h_executions (heap (startShellExecution c w s))
            = h_executions (heap (endCurrent s)) @
              [\<lparr>ex_commandLine = c,
                ex_cwd = (case w of Some u \<Rightarrow> Some u | None \<Rightarrow> cwd s),
                ex_dataStream = None, ex_ended = False\<rparr>]
        \<and> length (h_executions (heap (endCurrent s))) = length (h_executions (heap s))
        \<and> activeExecutions (startShellExecution c w s) = activeExecutions s)"
proof (intro conjI impI)
  assume a: "cl_confidence c = High \<and> activeExecutions s = pre @ e # post
      \<and> cmdText s e = cl_value c \<and> list_all (\<lambda>x. cmdText s x \<noteq> cl_value c) pre"
  then have "findIndex (\<lambda>x. cmdText (endCurrent s) x = cl_value c) (activeExecutions (endCurrent s))
      = Some (length pre)"
    by (simp add: findIndex_first)
  then have p: "pickExecution c (endCurrent s)
      = (Some e, (endCurrent s)\<lparr>activeExecutions := pre @ post\<rparr>)"
    using a by (simp add: pickExecution_def cmdText_def)
  show "currentExecution (startShellExecution c w s) = Some e"
    by (simp add: startShellExecution_def p makeCurrent_def fireService_def)
  show "activeExecutions (startShellExecution c w s) = pre @ post"
    by (simp add: startShellExecution_def p makeCurrent_def fireService_def)
next
  assume a: "cl_confidence c \<noteq> High \<and> activeExecutions s = e # es"
  then have p: "pickExecution c (endCurrent s) = (Some e, (endCurrent s)\<lparr>activeExecutions := es\<rparr>)"
    by (simp add: pickExecution_def)
  show "currentExecution (startShellExecution c w s) = Some e"
    by (simp add: startShellExecution_def p makeCurrent_def fireService_def)
  show "activeExecutions (startShellExecution c w s) = es"
    by (simp add: startShellExecution_def p makeCurrent_def fireService_def)
next
  assume a: "if cl_confidence c = High
        then list_all (\<lambda>x. cmdText s x \<noteq> cl_value c) (activeExecutions s)
        else activeExecutions s = []"
  have "cl_confidence c = High \<Longrightarrow>
     findIndex (\<lambda>x. cmdText (endCurrent s) x = cl_value c) (activeExecutions (endCurrent s)) = None"
    using a by (simp add: findIndex_None)
  then have p: "pickExecution c (endCurrent s) = (None, endCurrent s)"
    using a by (auto simp add: pickExecution_def cmdText_def)
  show "currentExecution (startShellExecution c w s) = Some (length (h_executions (heap s)))"
    by (simp add: startShellExecution_def p makeCurrent_def allocExecution_def fireService_def)
  show "h_executions (heap (startShellExecution c w s))
            = h_executions (heap (endCurrent s)) @
              [\<lparr>ex_commandLine = c,
                ex_cwd = (case w of Some u \<Rightarrow> Some u | None \<Rightarrow> cwd s),
                ex_dataStream = None, ex_ended = False\<rparr>]"
    by (cases w)
      (simp_all add: startShellExecution_def p makeCurrent_def allocExecution_def fireService_def
        newExecution_def orElse_def)
  show "length (h_executions (heap (endCurrent s))) = length (h_executions (heap s))"
    by simp
  show "activeExecutions (startShellExecution c w s) = activeExecutions s"
    by (simp add: startShellExecution_def p makeCurrent_def allocExecution_def fireService_def)
qed

lemma atHome_full:
  "atHome =
     \<lparr>activeExecutions = [], currentExecution = None, env = None,
      cwd = Some (URI ''file:///home''), hasRichCommandDetection = False, disposed = False,
      heap = emptyHeap, pendingEnds = [],
      fired = [DidChangeTerminalShellIntegration], warnings = 0\<rparr>"
  by (simp add: atHome_def session_defs)

theorem startShellExecution_policy_witness:
  "(currentExecution (startShellExecution (cmd ''pwd'' High) None twoPending) = Some 1
    \<and> activeExecutions (startShellExecution (cmd ''pwd'' High) None twoPending) = [0])
   \<and> (currentExecution (startShellExecution (cmd ''???'' Low) None twoPending) = Some 0
    \<and> activeExecutions (startShellExecution (cmd ''???'' Low) None twoPending) = [1])
   \<and> (currentExecution (startShellExecution (cmd ''top'' High) (Some (URI ''file:///u'')) atHome)
        = Some 0
    \<and> h_executions (heap (startShellExecution (cmd ''top'' High) (Some (URI ''file:///u'')) atHome))
        = [\<lparr>ex_commandLine = cmd ''top'' High, ex_cwd = Some (URI ''file:///u''),
            ex_dataStream = None, ex_ended = False\<rparr>])
   \<and> h_executions (heap (startShellExecution (cmd ''top'' Low) None atHome))
        = [\<lparr>ex_commandLine = cmd ''top'' Low, ex_cwd = Some (URI ''file:///home''),
            ex_dataStream = None, ex_ended = False\<rparr>]"
proof -
  have h1: "cl_confidence (cmd ''pwd'' High) = High \<and> activeExecutions twoPending = [0] @ 1 # []
      \<and> cmdText twoPending 1 = cl_value (cmd ''pwd'' High)
      \<and> list_all (\<lambda>x. cmdText twoPending x \<noteq> cl_value (cmd ''pwd'' High)) [0]"
    by (simp add: twoPending_eval cmd_def)
  have h2: "cl_confidence (cmd ''???'' Low) \<noteq> High \<and> activeExecutions twoPending = 0 # [1]"
    by (simp add: twoPending_eval cmd_def)
  have h3: "(if cl_confidence (cmd ''top'' High) = High
        then list_all (\<lambda>x. cmdText atHome x \<noteq> cl_value (cmd ''top'' High))
               (activeExecutions atHome)
        else activeExecutions atHome = [])"
    by (simp add: atHome_full cmd_def)
  have h4: "(if cl_confidence (cmd ''top'' Low) = High
        then list_all (\<lambda>x. cmdText atHome x \<noteq> cl_value (cmd ''top'' Low))
               (activeExecutions atHome)
        else activeExecutions atHome = [])"
    by (simp add: atHome_full cmd_def)
  have e: "h_executions (heap (endCurrent atHome)) = []"
    "length (h_executions (heap atHome)) = 0" "cwd atHome = Some (URI ''file:///home'')"
    by (simp_all add: atHome_full endCurrent_def emptyHeap_def)
  from h1 startShellExecution_policy [of "cmd ''pwd'' High" twoPending "[0]" 1 "[]" None]
  have c1: "currentExecution (startShellExecution (cmd ''pwd'' High) None twoPending) = Some 1
    \<and> activeExecutions (startShellExecution (cmd ''pwd'' High) None twoPending) = [0]"
    by simp
  from h2 startShellExecution_policy [of "cmd ''???'' Low" twoPending _ 0 _ None "[1]"]
  have c2: "currentExecution (startShellExecution (cmd ''???'' Low) None twoPending) = Some 0
    \<and> activeExecutions (startShellExecution (cmd ''???'' Low) None twoPending) = [1]"
    by simp
  from h3 startShellExecution_policy [of "cmd ''top'' High" atHome _ _ _ "Some (URI ''file:///u'')"]
  have c3: "currentExecution (startShellExecution (cmd ''top'' High) (Some (URI ''file:///u'')) atHome)
        = Some 0
    \<and> h_executions (heap (startShellExecution (cmd ''top'' High) (Some (URI ''file:///u'')) atHome))
        = [\<lparr>ex_commandLine = cmd ''top'' High, ex_cwd = Some (URI ''file:///u''),
            ex_dataStream = None, ex_ended = False\<rparr>]"
    by (simp add: e)
  from h4 startShellExecution_policy [of "cmd ''top'' Low" atHome _ _ _ None]
  have c4: "h_executions (heap (startShellExecution (cmd ''top'' Low) None atHome))
        = [\<lparr>ex_commandLine = cmd ''top'' Low, ex_cwd = Some (URI ''file:///home''),
            ex_dataStream = None, ex_ended = False\<rparr>]"
    by (simp add: e)
  from c1 c2 c3 c4 show ?thesis by blast
qed

subsection \<open>The command line of executeCommand\<close>

lemma appendArgs_spec: "appendArgs v args = commandLine_spec v args"
proof (induction args arbitrary: v)
  case Nil
  show ?case by (simp add: commandLine_spec_def)
next
  case (Cons a args)
  have q: "(if wrapInQuotes a then v @ [CHR 0x20, CHR 0x22] @ a @ [CHR 0x22] else v @ [CHR 0x20] @ a)
      = v @ CHR 0x20 # quoted_spec a"
    by (auto simp: wrapInQuotes_def quoted_spec_def list_ex_iff isQuote_def)
  show ?case
    using Cons.IH [of "v @ CHR 0x20 # quoted_spec a"]
    by (simp only: appendArgs.simps q) (simp add: commandLine_spec_def)
qed

text \<open>
  Claim C10. \<^verbatim>\<open>executeCommand(executable, args)\<close> sends to the transport, and stores in
  the new pending execution, the executable followed by each argument behind a single
  space, an argument being put in double quotes exactly when it contains whitespace and
  none of the characters double quote, single quote and backtick; the stored command
  line has confidence High and is trusted. The new execution is appended to the pending
  queue and gets the cwd of the session.
\<close>

theorem executeCommand_commandLine:
  assumes "\<not> disposed s" and "executeCommand executable (Some args) s = (e, s')"
  shows "fired s' = fired s @ [ExecuteCommandRequest (commandLine_spec executable args)]
    \<and> e = length (h_executions (heap s))
    \<and> activeExecutions s' = activeExecutions s @ [e]
    \<and> h_executions (heap s') = h_executions (heap s) @
        [newExecution \<lparr>cl_value = commandLine_spec executable args, cl_confidence = High,
                       cl_isTrusted = True\<rparr> (cwd s)]"
  using assms
  by (auto simp: executeCommand_def requestNewShellExecution_def allocExecution_def fire_def
      argsCommandLine_def appendArgs_spec orElse_def split: option.splits)

theorem executeCommand_commandLine_witness:
  "fired (snd (executeCommand ''git'' (Some [''commit'', ''-m'', ''two words'', ''it's'']) newSession))
     = [ExecuteCommandRequest (''git commit -m '' @ [CHR 0x22] @ ''two words'' @ [CHR 0x22] @ '' it's'')]
   \<and> ex_commandLine (h_executions (heap (snd
        (executeCommand ''git'' (Some [''commit'', ''-m'', ''two words'', ''it's'']) newSession))) ! 0)
     = \<lparr>cl_value = ''git commit -m '' @ [CHR 0x22] @ ''two words'' @ [CHR 0x22] @ '' it's'',
        cl_confidence = High, cl_isTrusted = True\<rparr>"
proof -
  have d: "\<not> disposed newSession" by (simp add: newSession_def)
  have v: "commandLine_spec ''git'' [''commit'', ''-m'', ''two words'', ''it's'']
     = ''git commit -m '' @ [CHR 0x22] @ ''two words'' @ [CHR 0x22] @ '' it's''"
    by (simp add: commandLine_spec_def quoted_spec_def isWhiteSpace_def)
  have n: "h_executions (heap newSession) = []" "fired newSession = []"
    by (simp_all add: newSession_def emptyHeap_def)
  show ?thesis
    using executeCommand_commandLine [OF d surjective_pairing,
        of "''git''" "[''commit'', ''-m'', ''two words'', ''it's'']"]
    by (simp add: v n newExecution_def)
qed

subsection \<open>Environment and working-directory changes\<close>

lemma fold_upt_Suc: "fold f [0..<Suc n] m = f n (fold f [0..<n] m)"
  by simp

lemma zipEnv_absent:
  assumes "k = ''__proto__'' \<or> (\<forall>i<n. ks ! i \<noteq> k)"
  shows "fold (\<lambda>i m. if ks ! i = ''__proto__'' then m
                 else m(ks ! i \<mapsto> (if i < length vs then Some (vs ! i) else None)))
       [0..<n] Map.empty k = None"
  using assms
proof (induction n)
  case 0
  then show ?case by simp
next
  case (Suc n)
  then have "fold (\<lambda>i m. if ks ! i = ''__proto__'' then m
                 else m(ks ! i \<mapsto> (if i < length vs then Some (vs ! i) else None)))
       [0..<n] Map.empty k = None"
    by auto
  moreover have "ks ! n \<noteq> k \<or> ks ! n = ''__proto__''" using Suc.prems by auto
  ultimately show ?case by (auto simp: fold_upt_Suc simp del: upt_Suc)
qed

lemma zipEnv_last:
  assumes "i < n" and "ks ! i \<noteq> ''__proto__''" and "\<forall>j. i < j \<and> j < n \<longrightarrow> ks ! j \<noteq> ks ! i"
  shows "fold (\<lambda>i m. if ks ! i = ''__proto__'' then m
                 else m(ks ! i \<mapsto> (if i < length vs then Some (vs ! i) else None)))
       [0..<n] Map.empty (ks ! i) = Some (if i < length vs then Some (vs ! i) else None)"
  using assms
proof (induction n)
  case 0
  then show ?case by simp
next
  case (Suc n)
  show ?case
  proof (cases "i = n")
    case True
    then show ?thesis using Suc.prems(2) by (simp add: fold_upt_Suc del: upt_Suc)
  next
    case False
    then have i: "i < n" using Suc.prems(1) by simp
    have n: "ks ! n \<noteq> ks ! i" using Suc.prems(3) i by simp
    have "fold (\<lambda>i m. if ks ! i = ''__proto__'' then m
                 else m(ks ! i \<mapsto> (if i < length vs then Some (vs ! i) else None)))
       [0..<n] Map.empty (ks ! i) = Some (if i < length vs then Some (vs ! i) else None)"
      using Suc.IH [OF i Suc.prems(2)] Suc.prems(3) by simp
    then show ?thesis using n by (simp add: fold_upt_Suc del: upt_Suc)
  qed
qed

text \<open>
  Claim C8. In a session that is not disposed, every \<^verbatim>\<open>shellEnvChange\<close> replaces the
  stored environment by the one zipped from the signal's keys and values, whatever was
  stored, and raises exactly one change event, also when the same keys and values
  arrive twice. The new snapshot holds nothing for a key that is not among the signal's
  keys, and for each key the value at its last position (\<^verbatim>\<open>undefined\<close> behind the end
  of the values); the key \<^verbatim>\<open>__proto__\<close> is not stored. A \<^verbatim>\<open>cwdChange\<close> raises a change
  event, and stores the new value, only when the new value differs from the stored
  one: two URIs are compared by their strings, and an absent stored cwd differs from
  every URI and from nothing else; otherwise the session is left as it is.
\<close>

theorem env_and_cwd_change_events:
  assumes "\<not> disposed s"
  shows "fired (setEnv ks vs t s) = fired s @ [DidChangeTerminalShellIntegration]
    \<and> env (setEnv ks vs t s) = Some \<lparr>env_value = zipEnv ks vs, env_isTrusted = t\<rparr>
    \<and> (k = ''__proto__'' \<or> k \<notin> set ks \<longrightarrow> zipEnv ks vs k = None)
    \<and> (i < length ks \<and> ks ! i \<noteq> ''__proto__''
          \<and> (\<forall>j. i < j \<and> j < length ks \<longrightarrow> ks ! j \<noteq> ks ! i)
        \<longrightarrow> zipEnv ks vs (ks ! i) = Some (if i < length vs then Some (vs ! i) else None))
    \<and> fired (setEnv ks vs t (setEnv ks vs t s))
        = fired s @ [DidChangeTerminalShellIntegration, DidChangeTerminalShellIntegration]
    \<and> (cwd s = Some u \<and> w = Some v \<longrightarrow>
         fired (setCwd w s)
           = fired s @ (if uri_toString u = uri_toString v then []
                        else [DidChangeTerminalShellIntegration]))
    \<and> (cwd s = Some u \<and> w = None \<longrightarrow>
         fired (setCwd w s) = fired s @ [DidChangeTerminalShellIntegration])
    \<and> (cwd s = None \<longrightarrow>
         fired (setCwd w s)
           = fired s @ (if w = None then [] else [DidChangeTerminalShellIntegration]))
    \<and> (fired (setCwd w s) = fired s \<longrightarrow> setCwd w s = s)
    \<and> (fired (setCwd w s) \<noteq> fired s \<longrightarrow> cwd (setCwd w s) = w)"
proof -
  have a: "k = ''__proto__'' \<or> k \<notin> set ks \<longrightarrow> zipEnv ks vs k = None"
    unfolding zipEnv_def by (intro impI zipEnv_absent) (auto simp: in_set_conv_nth)
  have b: "i < length ks \<and> ks ! i \<noteq> ''__proto__''
          \<and> (\<forall>j. i < j \<and> j < length ks \<longrightarrow> ks ! j \<noteq> ks ! i)
        \<longrightarrow> zipEnv ks vs (ks ! i) = Some (if i < length vs then Some (vs ! i) else None)"
    unfolding zipEnv_def by (intro impI zipEnv_last) simp_all
  have c: "fired (setEnv ks vs t s) = fired s @ [DidChangeTerminalShellIntegration]
    \<and> env (setEnv ks vs t s) = Some \<lparr>env_value = zipEnv ks vs, env_isTrusted = t\<rparr>
    \<and> fired (setEnv ks vs t (setEnv ks vs t s))
        = fired s @ [DidChangeTerminalShellIntegration, DidChangeTerminalShellIntegration]
    \<and> (cwd s = Some u \<and> w = Some v \<longrightarrow>
         fired (setCwd w s)
           = fired s @ (if uri_toString u = uri_toString v then []
                        else [DidChangeTerminalShellIntegration]))
    \<and> (cwd s = Some u \<and> w = None \<longrightarrow>
         fired (setCwd w s) = fired s @ [DidChangeTerminalShellIntegration])
    \<and> (cwd s = None \<longrightarrow>
         fired (setCwd w s)
           = fired s @ (if w = None then [] else [DidChangeTerminalShellIntegration]))
    \<and> (fired (setCwd w s) = fired s \<longrightarrow> setCwd w s = s)
    \<and> (fired (setCwd w s) \<noteq> fired s \<longrightarrow> cwd (setCwd w s) = w)"
    using assms
    by (auto simp: setEnv_def setCwd_def fireChangeEvent_def fire_def split: option.splits)
  from a b c show ?thesis by blast
qed

theorem env_and_cwd_change_events_witness:
  "fired (run [ShellEnvChange [''PATH'', ''PATH''] [''/bin'', ''/usr''] True,
               ShellEnvChange [''PATH'', ''PATH''] [''/bin'', ''/usr''] True] newSession)
     = [DidChangeTerminalShellIntegration, DidChangeTerminalShellIntegration]
   \<and> map_option (\<lambda>e. (env_value e ''PATH'', env_value e ''HOME'', env_value e ''__proto__''))
       (env (run [ShellEnvChange [''__proto__'', ''PATH'', ''PATH''] [''x'', ''/bin'', ''/usr''] True]
          newSession))
     = Some (Some (Some ''/usr''), None, None)
   \<and> zipEnv [''A'', ''B''] [''a''] ''B'' = Some None
   \<and> fired (run [CwdChange (Some (URI ''file:///a'')), CwdChange (Some (URI ''file:///a''))]
            newSession)
     = [DidChangeTerminalShellIntegration]"
proof -
  have d: "\<not> disposed newSession" by (simp add: newSession_def)
  have f: "fired newSession = []" "cwd newSession = None" by (simp_all add: newSession_def)
  let ?s = "setCwd (Some (URI ''file:///a'')) newSession"
  have d2: "\<not> disposed ?s" "cwd ?s = Some (URI ''file:///a'')"
    by (simp_all add: setCwd_def fireChangeEvent_def fire_def newSession_def)
  have a: "fired (setEnv [''PATH'', ''PATH''] [''/bin'', ''/usr''] True
             (setEnv [''PATH'', ''PATH''] [''/bin'', ''/usr''] True newSession))
     = [DidChangeTerminalShellIntegration, DidChangeTerminalShellIntegration]"
    using env_and_cwd_change_events [OF d, of "[''PATH'', ''PATH'']" "[''/bin'', ''/usr'']" True]
    by (simp add: f)
  let ?ks = "[''__proto__'', ''PATH'', ''PATH'']" and ?vs = "[''x'', ''/bin'', ''/usr'']"
  have e0: "env (setEnv ?ks ?vs True newSession)
      = Some \<lparr>env_value = zipEnv ?ks ?vs, env_isTrusted = True\<rparr>"
    using env_and_cwd_change_events [OF d, of ?ks ?vs True] by simp
  have h: "\<forall>j. 2 < j \<and> j < length ?ks \<longrightarrow> ?ks ! j \<noteq> ?ks ! 2" by simp
  have e1: "zipEnv ?ks ?vs ''PATH'' = Some (Some ''/usr'')"
    using env_and_cwd_change_events [OF d, of ?ks ?vs True "''PATH''" 2] h by simp
  have e2: "zipEnv ?ks ?vs ''HOME'' = None" "zipEnv ?ks ?vs ''__proto__'' = None"
    using env_and_cwd_change_events [OF d, of ?ks ?vs _ "''HOME''"]
      env_and_cwd_change_events [OF d, of ?ks ?vs _ "''__proto__''"] by simp_all
  have h3: "\<forall>j. 1 < j \<and> j < length [''A'', ''B''] \<longrightarrow> [''A'', ''B''] ! j \<noteq> [''A'', ''B''] ! 1"
    by simp
  have e3: "zipEnv [''A'', ''B''] [''a''] ''B'' = Some None"
    using env_and_cwd_change_events [OF d, of "[''A'', ''B'']" "[''a'']" True "''B''" 1] h3 by simp
  have b: "fired ?s = [DidChangeTerminalShellIntegration]"
    using env_and_cwd_change_events [OF d, of _ _ _ _ _ _ "Some (URI ''file:///a'')"] by (simp add: f)
  have c: "fired (setCwd (Some (URI ''file:///a'')) ?s) = fired ?s"
    using env_and_cwd_change_events [OF d2(1), of _ _ _ _ _ "URI ''file:///a''"
        "Some (URI ''file:///a'')" "URI ''file:///a''"] d2(2)
    by simp
  show ?thesis using a b c e0 e1 e2 e3 by simp
qed

subsection \<open>What the end event waits for\<close>

lemma oneReader_full:
  "oneReader =
     \<lparr>activeExecutions = [], currentExecution = Some 0, env = None, cwd = None,
      hasRichCommandDetection = False, disposed = False,
      heap =
        \<lparr>h_executions = [\<lparr>ex_commandLine = cmd ''ls'' High, ex_cwd = None,
                           ex_dataStream = Some 0, ex_ended = False\<rparr>],
         h_streams = [\<lparr>ds_barrier = Some 0, ds_iterables = [0], ds_emitters = [0]\<rparr>],
         h_iterables = [\<lparr>it_stream = 0, it_barrier = 0, it_started = True, it_done = False,
                          it_results = [], it_cursor = 0, it_sawEnd = False\<rparr>],
         h_barriers = [False]\<rparr>,
      pendingEnds = [], fired = [DidStartTerminalShellExecution 0], warnings = 0\<rparr>"
  by (simp add: oneReader_def cmd_def heap_defs session_defs)

text \<open>
  Claim C2, evaluated. Execution 0 has a stream with one reader (iterable 0), whose
  drain signal is \<open>AwaitAll [0]\<close>. \<^verbatim>\<open>endExecution\<close> clears \<^verbatim>\<open>_dataStream\<close>, so the
  \<^verbatim>\<open>flush()\<close> called after it finds no stream and returns a promise that waits for
  nothing: it is resolved although the reader attached at end time is not complete.
\<close>

theorem flush_after_endExecution_waits_for_nothing:
  "createDataStream 0 (heap (run [ShellExecutionStart (cmd ''ls'' High) None] newSession))
     = (Iterable 0, heap (run [ShellExecutionStart (cmd ''ls'' High) None, Read 0] newSession))
   \<and> ds_flush 0 (heap oneReader) = AwaitAll [0]
   \<and> flush 0 (endExecution 0 None (heap oneReader)) = AwaitNothing
   \<and> resolved (flush 0 (endExecution 0 None (heap oneReader))) (endExecution 0 None (heap oneReader))
   \<and> \<not> terminated (Iterable 0) (endExecution 0 None (heap oneReader))
   \<and> \<not> resolved (AwaitAll [0]) (endExecution 0 None (heap oneReader))"
  by (simp add: oneReader_full heap_defs session_defs cmd_def resolved_def terminated_def)

subsection \<open>Signals for a terminal without a session\<close>

lemmas service_defs =
  onSession_def shellIntegrationChange_def shellExecutionStart_def shellExecutionEnd_def
  shellExecutionData_def shellEnvChange_def cwdChange_def closeTerminal_def
  setHasRichCommandDetectionOf_def terminalWillDispose_def

text \<open>
  Claim C9 as stated fails: an environment change for a known terminal that has no
  session yet creates no session and is dropped.
\<close>

theorem env_change_creates_no_session:
  "1 \<in> set (terminals freshService)
   \<and> activeShellIntegrations freshService 1 = None
   \<and> activeShellIntegrations (deliver 1 (EnvChange [''PATH''] [''/bin''] True) freshService) 1 = None
   \<and> deliver 1 (EnvChange [''PATH''] [''/bin''] True) freshService = freshService"
  by (simp add: freshService_def service_defs)

lemma deliver_no_session:
  assumes "activeShellIntegrations v i = None" and "\<not> createsSession sig \<or> i \<notin> set (terminals v)"
  shows "deliver i sig v = v"
  using assms by (cases sig) (auto simp: service_defs fun_upd_idem)

lemma deliver_creates:
  assumes "activeShellIntegrations v i = None" and "createsSession sig" and "i \<in> set (terminals v)"
  shows "deliver i sig v =
     v\<lparr>activeShellIntegrations := (activeShellIntegrations v)
          (i \<mapsto> sessionEffect sig (fireService DidChangeTerminalShellIntegration newSession)),
       willDisposeListeners := willDisposeListeners v @ [i]\<rparr>"
  using assms by (cases sig) (auto simp: service_defs)

text \<open>
  Claim C9, amended. For a handle with no session: a \<^verbatim>\<open>shellIntegrationChange\<close> or a
  \<^verbatim>\<open>shellExecutionStart\<close> whose handle resolves to a terminal creates the session,
  registers it under the handle (the other handles keep theirs), registers the disposal
  listener that disposes it with the terminal, raises a change event and applies the
  signal to the new session; every other signal, and every signal whose handle does
  not resolve, leaves the service as it is.
\<close>

theorem lazy_session_creation:
  assumes "activeShellIntegrations v i = None"
  shows "(createsSession sig \<and> i \<in> set (terminals v) \<longrightarrow>
           activeShellIntegrations (deliver i sig v) i
             = Some (sessionEffect sig (fireService DidChangeTerminalShellIntegration newSession))
           \<and> (\<forall>j. j \<noteq> i \<longrightarrow>
                 activeShellIntegrations (deliver i sig v) j = activeShellIntegrations v j)
           \<and> willDisposeListeners (deliver i sig v) = willDisposeListeners v @ [i]
           \<and> activeShellIntegrations (terminalWillDispose i (deliver i sig v)) i
             = Some (dispose (sessionEffect sig
                  (fireService DidChangeTerminalShellIntegration newSession))))
    \<and> (\<not> createsSession sig \<or> i \<notin> set (terminals v) \<longrightarrow> deliver i sig v = v)"
proof (intro conjI impI)
  assume a: "createsSession sig \<and> i \<in> set (terminals v)"
  note d = deliver_creates [OF assms, of sig] 
  show "activeShellIntegrations (deliver i sig v) i
             = Some (sessionEffect sig (fireService DidChangeTerminalShellIntegration newSession))"
    using a by (simp add: d)
  show "\<forall>j. j \<noteq> i \<longrightarrow>
                 activeShellIntegrations (deliver i sig v) j = activeShellIntegrations v j"
    using a by (simp add: d)
  show "willDisposeListeners (deliver i sig v) = willDisposeListeners v @ [i]"
    using a by (simp add: d)
  show "activeShellIntegrations (terminalWillDispose i (deliver i sig v)) i
             = Some (dispose (sessionEffect sig
                  (fireService DidChangeTerminalShellIntegration newSession)))"
    using a by (simp add: d terminalWillDispose_def onSession_def)
next
  assume "\<not> createsSession sig \<or> i \<notin> set (terminals v)"
  then show "deliver i sig v = v" by (rule deliver_no_session [OF assms])
qed

theorem lazy_session_creation_witness:
  "map_option fired
     (activeShellIntegrations (deliver 1 (ExecutionStart ''ls'' High True None) freshService) 1)
     = Some [DidChangeTerminalShellIntegration, DidStartTerminalShellExecution 0]
   \<and> willDisposeListeners (deliver 1 (ExecutionStart ''ls'' High True None) freshService) = [1]
   \<and> deliver 2 (ExecutionStart ''ls'' High True None) freshService = freshService
   \<and> deliver 1 (WorkingDirectoryChange (Some (URI ''file:///a''))) freshService = freshService"
proof -
  have n: "activeShellIntegrations freshService 1 = None"
    "activeShellIntegrations freshService 2 = None"
    by (simp_all add: freshService_def)
  have t: "1 \<in> set (terminals freshService)" "2 \<notin> set (terminals freshService)"
    "willDisposeListeners freshService = []"
    by (simp_all add: freshService_def)
  have f: "fired (sessionEffect (ExecutionStart ''ls'' High True None)
             (fireService DidChangeTerminalShellIntegration newSession))
     = [DidChangeTerminalShellIntegration, DidStartTerminalShellExecution 0]"
    by (simp add: heap_defs session_defs)
  show ?thesis
    using lazy_session_creation [OF n(1), of "ExecutionStart ''ls'' High True None"]
      lazy_session_creation [OF n(2), of "ExecutionStart ''ls'' High True None"]
      lazy_session_creation [OF n(1), of "WorkingDirectoryChange (Some (URI ''file:///a''))"]
      t f
    by simp
qed

subsection \<open>The invariant of the queue and the events\<close>

lemma queueInvI:
  assumes "distinct p"
    and "\<And>e. e \<in> set p \<Longrightarrow> e < n \<and> e \<notin> set st"
    and "\<And>e. c = Some e \<Longrightarrow> e \<in> set st \<and> e \<notin> set en"
    and "set en \<subseteq> set st"
    and "\<And>e. e \<in> set st \<Longrightarrow> e < n"
    and "distinct st"
    and "distinct en"
    and "\<And>e. \<not> d \<Longrightarrow> e \<in> set st \<Longrightarrow> e \<notin> set en \<Longrightarrow> c = Some e"
  shows "queueInv p c st en n d"
  unfolding queueInv_def using assms by blast

lemma queueInvD:
  assumes "queueInv p c st en n d"
  shows "distinct p"
    and "\<And>e. e \<in> set p \<Longrightarrow> e < n"
    and "\<And>e. e \<in> set p \<Longrightarrow> e \<notin> set st"
    and "\<And>e. c = Some e \<Longrightarrow> e \<in> set st"
    and "\<And>e. c = Some e \<Longrightarrow> e \<notin> set en"
    and "\<And>e. e \<in> set en \<Longrightarrow> e \<in> set st"
    and "\<And>e. e \<in> set st \<Longrightarrow> e < n"
    and "distinct st"
    and "distinct en"
    and "\<And>e. \<not> d \<Longrightarrow> e \<in> set st \<Longrightarrow> e \<notin> set en \<Longrightarrow> c = Some e"
  using assms unfolding queueInv_def by blast+

lemma queueInv_enqueue:
  assumes "queueInv p c st en n d"
  shows "queueInv (p @ [n]) c st en (Suc n) d"
proof (rule queueInvI)
  note D = queueInvD [OF assms]
  show "distinct (p @ [n])" using D(1) D(2) [of n] by auto
  show "e \<in> set (p @ [n]) \<Longrightarrow> e < Suc n \<and> e \<notin> set st" for e
    using D(2) [of e] D(3) [of e] D(7) [of n] by auto
  show "c = Some e \<Longrightarrow> e \<in> set st \<and> e \<notin> set en" for e using D(4,5) by blast
  show "set en \<subseteq> set st" using D(6) by blast
  show "e \<in> set st \<Longrightarrow> e < Suc n" for e using D(7) [of e] by simp
  show "distinct st" by (rule D(8))
  show "distinct en" by (rule D(9))
  show "\<not> d \<Longrightarrow> e \<in> set st \<Longrightarrow> e \<notin> set en \<Longrightarrow> c = Some e" for e using D(10) by blast
qed

lemma forcedEnd_cases:
  "forcedEnd c d = [] \<or> (\<exists>e. c = Some e \<and> \<not> d \<and> forcedEnd c d = [e])"
  by (simp add: forcedEnd_def split: option.splits)

lemma queueInv_forcedEnd:
  assumes "queueInv p c st en n d"
  shows "distinct (en @ forcedEnd c d)"
    and "set (en @ forcedEnd c d) \<subseteq> set st"
    and "\<And>e. \<not> d \<Longrightarrow> e \<in> set st \<Longrightarrow> e \<in> set (en @ forcedEnd c d)"
proof -
  note D = queueInvD [OF assms]
  show "distinct (en @ forcedEnd c d)"
    using forcedEnd_cases [of c d] D(5) D(9) by auto
  show "set (en @ forcedEnd c d) \<subseteq> set st"
    using forcedEnd_cases [of c d] D(4) D(6) by auto
  show "e \<in> set (en @ forcedEnd c d)" if "\<not> d" "e \<in> set st" for e
  proof (cases "e \<in> set en")
    case True then show ?thesis by simp
  next
    case False
    with that D(10) have "c = Some e" by blast
    with that show ?thesis by (simp add: forcedEnd_def)
  qed
qed

lemma queueInv_start_new:
  assumes "queueInv p c st en n d"
  shows "queueInv p (Some n) (st @ [n]) (en @ forcedEnd c d) (Suc n) d"
proof (rule queueInvI)
  note D = queueInvD [OF assms] and F = queueInv_forcedEnd [OF assms]
  have n: "n \<notin> set st" using D(7) [of n] by auto
  show "distinct p" by (rule D(1))
  show "e \<in> set p \<Longrightarrow> e < Suc n \<and> e \<notin> set (st @ [n])" for e
    using D(2) [of e] D(3) [of e] by auto
  show "Some n = Some e \<Longrightarrow> e \<in> set (st @ [n]) \<and> e \<notin> set (en @ forcedEnd c d)" for e
    using n F(2) by auto
  show "set (en @ forcedEnd c d) \<subseteq> set (st @ [n])" using F(2) by auto
  show "e \<in> set (st @ [n]) \<Longrightarrow> e < Suc n" for e using D(7) [of e] by auto
  show "distinct (st @ [n])" using D(8) n by simp
  show "distinct (en @ forcedEnd c d)" by (rule F(1))
  show "\<not> d \<Longrightarrow> e \<in> set (st @ [n]) \<Longrightarrow> e \<notin> set (en @ forcedEnd c d) \<Longrightarrow> Some n = Some e" for e
    using F(3) [of e] by auto
qed

lemma queueInv_start_pending:
  assumes "queueInv (pre @ e # post) c st en n d"
  shows "queueInv (pre @ post) (Some e) (st @ [e]) (en @ forcedEnd c d) n d"
proof (rule queueInvI)
  note D = queueInvD [OF assms] and F = queueInv_forcedEnd [OF assms]
  have e: "e \<notin> set st" "e < n" "e \<notin> set (pre @ post)" using D(1) D(2) [of e] D(3) [of e] by auto
  show "distinct (pre @ post)" using D(1) by simp
  show "x \<in> set (pre @ post) \<Longrightarrow> x < n \<and> x \<notin> set (st @ [e])" for x
    using D(2) [of x] D(3) [of x] e(3) by auto
  show "Some e = Some x \<Longrightarrow> x \<in> set (st @ [e]) \<and> x \<notin> set (en @ forcedEnd c d)" for x
    using e(1) F(2) by auto
  show "set (en @ forcedEnd c d) \<subseteq> set (st @ [e])" using F(2) by auto
  show "x \<in> set (st @ [e]) \<Longrightarrow> x < n" for x using D(7) [of x] e(2) by auto
  show "distinct (st @ [e])" using D(8) e(1) by simp
  show "distinct (en @ forcedEnd c d)" by (rule F(1))
  show "\<not> d \<Longrightarrow> x \<in> set (st @ [e]) \<Longrightarrow> x \<notin> set (en @ forcedEnd c d) \<Longrightarrow> Some e = Some x" for x
    using F(3) [of x] by auto
qed

lemma queueInv_end:
  assumes "queueInv p (Some e) st en n d"
  shows "queueInv p None st (en @ (if d then [] else [e])) n d"
proof (rule queueInvI)
  note D = queueInvD [OF assms]
  show "distinct p" by (rule D(1))
  show "x \<in> set p \<Longrightarrow> x < n \<and> x \<notin> set st" for x using D(2,3) by blast
  show "None = Some x \<Longrightarrow> x \<in> set st \<and> x \<notin> set (en @ (if d then [] else [e]))" for x by simp
  show "set (en @ (if d then [] else [e])) \<subseteq> set st" using D(4) [of e] D(6) by auto
  show "x \<in> set st \<Longrightarrow> x < n" for x by (rule D(7))
  show "distinct st" by (rule D(8))
  show "distinct (en @ (if d then [] else [e]))" using D(5) [of e] D(9) by auto
  show "\<not> d \<Longrightarrow> x \<in> set st \<Longrightarrow> x \<notin> set (en @ (if d then [] else [e])) \<Longrightarrow> None = Some x" for x
    using D(10) [of x] by auto
qed

lemma queueInv_dispose:
  assumes "queueInv p c st en n d"
  shows "queueInv p c st en n True"
  using assms unfolding queueInv_def by blast

lemma startEvents_simps [simp]:
  "startEvents [] = []"
  "startEvents (xs @ ys) = startEvents xs @ startEvents ys"
  "startEvents (ev # xs) = startOf ev @ startEvents xs"
  by (simp_all add: startEvents_def)

lemma endEvents_simps [simp]:
  "endEvents [] = []"
  "endEvents (xs @ ys) = endEvents xs @ endEvents ys"
  "endEvents (ev # xs) = endOf ev @ endEvents xs"
  by (simp_all add: endEvents_def)

lemma fold_emitOne_frame [simp]:
  "h_executions (fold (emitOne d) rs h) = h_executions h"
  "h_streams (fold (emitOne d) rs h) = h_streams h"
  "h_barriers (fold (emitOne d) rs h) = h_barriers h"
  "length (h_iterables (fold (emitOne d) rs h)) = length (h_iterables h)"
  by (induction rs arbitrary: h) (simp_all add: emitOne_def updIterable_def)

lemma executions_frame [simp]:
  "h_executions (ex_emitData e d h) = h_executions h"
  "h_executions (runExecutor r h) = h_executions h"
  "h_executions (settle r h) = h_executions h"
  "h_executions (next_chunk r h) = h_executions h"
  "h_executions (ds_endExecution st h) = h_executions h"
  "h_executions (snd (ds_createIterable st h)) = h_executions h"
  by (simp_all add: ex_emitData_def ds_emitData_def runExecutor_def settle_def next_chunk_def
      updStream_def updIterable_def ds_endExecution_def ds_createIterable_def pushIterable_def
      split: option.splits)

lemma length_executions_createDataStream [simp]:
  "length (h_executions (snd (createDataStream e h))) = length (h_executions h)"
  by (simp add: createDataStream_def updExecution_def split_beta split: option.splits)

lemma findIndex_Some:
  "findIndex P xs = Some i \<Longrightarrow> i < length xs"
  by (induction xs arbitrary: i) (auto split: if_splits)

lemma pickExecution_cases:
  obtains (none) "pickExecution c s = (None, s)"
  | (some) pre e post where "activeExecutions s = pre @ e # post"
      and "pickExecution c s = (Some e, s\<lparr>activeExecutions := pre @ post\<rparr>)"
proof (cases "fst (pickExecution c s)")
  case None
  then have "pickExecution c s = (None, s)"
    by (auto simp: pickExecution_def split: if_splits option.splits list.splits)
  then show ?thesis by (rule none)
next
  case (Some e)
  show ?thesis
  proof (cases "cl_confidence c = High")
    case True
    with Some obtain i where i: "findIndex (\<lambda>e. cl_value (ex_commandLine (h_executions (heap s) ! e)) = cl_value c)
                (activeExecutions s) = Some i"
      by (auto simp: pickExecution_def split: option.splits)
    then have l: "i < length (activeExecutions s)" by (rule findIndex_Some)
    have "activeExecutions s = take i (activeExecutions s) @ activeExecutions s ! i # drop (Suc i) (activeExecutions s)"
      using l by (rule id_take_nth_drop)
    moreover have "pickExecution c s = (Some (activeExecutions s ! i),
        s\<lparr>activeExecutions := take i (activeExecutions s) @ drop (Suc i) (activeExecutions s)\<rparr>)"
      using True i by (simp add: pickExecution_def)
    ultimately show ?thesis by (rule some)
  next
    case False
    with Some obtain es where "activeExecutions s = [] @ e # es"
      and "pickExecution c s = (Some e, s\<lparr>activeExecutions := [] @ es\<rparr>)"
      by (auto simp: pickExecution_def split: list.splits)
    then show ?thesis by (rule some)
  qed
qed

lemma endCurrent_effect:
  "currentExecution (endCurrent s) = currentExecution s"
  "disposed (endCurrent s) = disposed s"
  "startEvents (fired (endCurrent s)) = startEvents (fired s)"
  "endEvents (fired (endCurrent s)) = endEvents (fired s) @ forcedEnd (currentExecution s) (disposed s)"
  by (simp_all add: endCurrent_def fire_def forcedEnd_def split: option.splits)

lemma sessionInv_start:
  assumes "sessionInv s"
  shows "sessionInv (startShellExecution c w s)"
proof (cases c "endCurrent s" rule: pickExecution_cases)
  case none
  have st: "startShellExecution c w s =
     makeCurrent (length (h_executions (heap s))) (allocExecution c (orElse w (cwd s)) (endCurrent s))"
    by (simp add: startShellExecution_def none)
  show ?thesis
    using queueInv_start_new [OF assms [unfolded sessionInv_def]]
    by (simp add: sessionInv_def st makeCurrent_def fireService_def allocExecution_def
        endCurrent_effect)
next
  case (some pre e post)
  have st: "startShellExecution c w s = makeCurrent e ((endCurrent s)\<lparr>activeExecutions := pre @ post\<rparr>)"
    by (simp add: startShellExecution_def some)
  have a: "activeExecutions s = pre @ e # post" using some by simp
  show ?thesis
    using queueInv_start_pending [OF assms [unfolded sessionInv_def a]]
    by (simp add: sessionInv_def st makeCurrent_def fireService_def endCurrent_effect)
qed

lemma sessionInv_executeCommand:
  assumes "sessionInv s"
  shows "sessionInv (snd (executeCommand x args s))"
  using queueInv_enqueue [OF assms [unfolded sessionInv_def]]
  by (cases "disposed s")
    (simp_all add: sessionInv_def executeCommand_def requestNewShellExecution_def
      allocExecution_def fire_def)

lemma sessionInv_endCallback:
  assumes "sessionInv s"
  shows "sessionInv (endCallback p s)"
proof (cases "currentExecution s = Some (pe_execution p)")
  case True
  show ?thesis
    using queueInv_end [OF assms [unfolded sessionInv_def True]]
    by (cases "disposed s") (simp_all add: sessionInv_def endCallback_def True fire_def)
next
  case False
  then show ?thesis using assms by (simp add: endCallback_def)
qed

lemma sessionInv_pendingEnds [simp]:
  "sessionInv (s\<lparr>pendingEnds := ps\<rparr>) = sessionInv s"
  by (simp add: sessionInv_def)

lemma sessionInv_heap:
  "length (h_executions h) = length (h_executions (heap s)) \<Longrightarrow>
   sessionInv (s\<lparr>heap := h\<rparr>) = sessionInv s"
  by (simp add: sessionInv_def)

lemma sessionInv_fireChangeEvent [simp]:
  "sessionInv (fireChangeEvent s) = sessionInv s"
  by (simp add: sessionInv_def fireChangeEvent_def fire_def)

lemma sessionInv_step:
  assumes "sessionInv s"
  shows "sessionInv (step x s)"
proof (cases x)
  case (ExecuteCommand c args)
  then show ?thesis using assms by (simp add: sessionInv_executeCommand)
next
  case (ShellExecutionStart c w)
  then show ?thesis using assms by (simp add: sessionInv_start)
next
  case (ShellExecutionEnd c e)
  then show ?thesis using assms
    by (cases "currentExecution s") (simp_all add: endShellExecution_def sessionInv_def)
next
  case (ShellExecutionData d)
  then show ?thesis using assms by (simp add: emitData_def sessionInv_heap split: option.splits)
next
  case (ShellEnvChange ks vs t)
  have "sessionInv (s\<lparr>env := v\<rparr>) = sessionInv s" for v by (simp add: sessionInv_def)
  with ShellEnvChange show ?thesis using assms by (simp add: setEnv_def)
next
  case (CwdChange w)
  have "sessionInv (s\<lparr>cwd := v\<rparr>) = sessionInv s" for v by (simp add: sessionInv_def)
  with CwdChange show ?thesis using assms by (simp add: setCwd_def)
next
  case (HasRichCommandDetection b)
  have "sessionInv (s\<lparr>hasRichCommandDetection := v\<rparr>) = sessionInv s" for v
    by (simp add: sessionInv_def)
  with HasRichCommandDetection show ?thesis using assms
    by (simp add: setHasRichCommandDetection_def)
next
  case Dispose
  then show ?thesis
    using queueInv_dispose [OF assms [unfolded sessionInv_def]]
    by (simp add: sessionInv_def dispose_def)
next
  case (Read e)
  then show ?thesis using assms by (simp add: sessionInv_heap)
next
  case (RunExecutor r)
  then show ?thesis using assms by (simp add: sessionInv_heap)
next
  case (Settle r)
  then show ?thesis using assms by (simp add: sessionInv_heap)
next
  case (NextChunk r)
  then show ?thesis using assms by (simp add: sessionInv_heap)
next
  case (ResumeEnd k)
  then show ?thesis using assms by (simp add: resumeEnd_def sessionInv_endCallback)
qed

lemma sessionInv_newSession: "sessionInv newSession"
  by (simp add: sessionInv_def queueInv_def newSession_def)

lemma sessionInv_run: "sessionInv s \<Longrightarrow> sessionInv (run xs s)"
  by (induction xs arbitrary: s) (simp_all add: sessionInv_step)

lemma flush_endExecution:
  "e < length (h_executions h) \<Longrightarrow> flush e (endExecution e c h) = AwaitNothing"
  by (simp add: flush_def endExecution_def updExecution_def setCommandLine_def
      ds_endExecution_def updStream_def split: option.splits)

lemma endExecution_ended:
  "e < length (h_executions h) \<Longrightarrow>
   ex_ended (h_executions (endExecution e c h) ! e)
   \<and> ex_dataStream (h_executions (endExecution e c h) ! e) = None"
  by (simp add: endExecution_def updExecution_def setCommandLine_def
      ds_endExecution_def updStream_def split: option.splits)

lemma sessionInv_current:
  assumes "sessionInv s" and "currentExecution s = Some e"
  shows "e < length (h_executions (heap s))" and "e \<notin> set (activeExecutions s)"
proof -
  note D = queueInvD [OF assms(1) [unfolded sessionInv_def]]
  from D(4) [OF assms(2)] D(7) show "e < length (h_executions (heap s))" by blast
  from D(4) [OF assms(2)] D(3) show "e \<notin> set (activeExecutions s)" by blast
qed

text \<open>What a start does when an execution is current.\<close>

lemma startShellExecution_supersedes:
  assumes "sessionInv s" and "currentExecution s = Some e"
  obtains e' where "e' \<noteq> e"
    and "currentExecution (startShellExecution c w s) = Some e'"
    and "fired (startShellExecution c w s)
          = fired s @ (if disposed s then [] else [DidEndTerminalShellExecution e None])
            @ [DidStartTerminalShellExecution e']"
    and "ex_ended (h_executions (heap (startShellExecution c w s)) ! e)"
    and "ex_dataStream (h_executions (heap (startShellExecution c w s)) ! e) = None"
    and "pendingEnds (startShellExecution c w s) = pendingEnds s"
proof -
  note C = sessionInv_current [OF assms]
  have f: "fired (endCurrent s)
     = fired s @ (if disposed s then [] else [DidEndTerminalShellExecution e None])"
    by (simp add: endCurrent_def fire_def assms(2))
  have h: "heap (endCurrent s) = endExecution e None (heap s)"
    by (simp add: endCurrent_def fire_def assms(2))
  have pe: "pendingEnds (endCurrent s) = pendingEnds s"
    by (simp add: endCurrent_def fire_def assms(2))
  note E = endExecution_ended [OF C(1), of None]
  show thesis
  proof (cases c "endCurrent s" rule: pickExecution_cases)
    case none
    have st: "startShellExecution c w s =
       makeCurrent (length (h_executions (heap s))) (allocExecution c (orElse w (cwd s)) (endCurrent s))"
      by (simp add: startShellExecution_def none)
    show ?thesis
    proof (rule that [of "length (h_executions (heap s))"])
      show "length (h_executions (heap s)) \<noteq> e" using C(1) by simp
      show "currentExecution (startShellExecution c w s) = Some (length (h_executions (heap s)))"
        by (simp add: st makeCurrent_def fireService_def)
      show "fired (startShellExecution c w s)
          = fired s @ (if disposed s then [] else [DidEndTerminalShellExecution e None])
            @ [DidStartTerminalShellExecution (length (h_executions (heap s)))]"
        by (simp add: st makeCurrent_def fireService_def allocExecution_def f)
      show "ex_ended (h_executions (heap (startShellExecution c w s)) ! e)"
        using E C(1) by (simp add: st makeCurrent_def fireService_def allocExecution_def h nth_append)
      show "ex_dataStream (h_executions (heap (startShellExecution c w s)) ! e) = None"
        using E C(1) by (simp add: st makeCurrent_def fireService_def allocExecution_def h nth_append)
      show "pendingEnds (startShellExecution c w s) = pendingEnds s"
        by (simp add: st makeCurrent_def fireService_def allocExecution_def pe)
    qed
  next
    case (some pre e' post)
    have st: "startShellExecution c w s = makeCurrent e' ((endCurrent s)\<lparr>activeExecutions := pre @ post\<rparr>)"
      by (simp add: startShellExecution_def some)
    have a: "e' \<in> set (activeExecutions s)" using some(1) by simp
    show ?thesis
    proof (rule that [of e'])
      show "e' \<noteq> e" using a C(2) by blast
      show "currentExecution (startShellExecution c w s) = Some e'"
        by (simp add: st makeCurrent_def fireService_def)
      show "fired (startShellExecution c w s)
          = fired s @ (if disposed s then [] else [DidEndTerminalShellExecution e None])
            @ [DidStartTerminalShellExecution e']"
        by (simp add: st makeCurrent_def fireService_def f)
      show "ex_ended (h_executions (heap (startShellExecution c w s)) ! e)"
        using E by (simp add: st makeCurrent_def fireService_def h)
      show "ex_dataStream (h_executions (heap (startShellExecution c w s)) ! e) = None"
        using E by (simp add: st makeCurrent_def fireService_def h)
      show "pendingEnds (startShellExecution c w s) = pendingEnds s"
        by (simp add: st makeCurrent_def fireService_def pe)
    qed
  qed
qed

subsection \<open>One current execution\<close>

text \<open>
  Claim C3. \<^verbatim>\<open>currentExecution\<close> holds at most one execution by its type. In every
  state that a session reaches before it is disposed, moreover, an execution that has
  a start event and no end event is the current one: no two executions are running at
  once. When \<^verbatim>\<open>startShellExecution\<close> runs while an execution is current, that
  execution is ended (its stream reference is cleared and \<^verbatim>\<open>_ended\<close> is set), its end
  event is fired with no exit code, and only then the start event of the execution
  that becomes current, which is another one.
\<close>

theorem at_most_one_current:
  assumes "s = run sigs newSession" and "\<not> disposed s"
  shows "(\<forall>e \<in> set (startEvents (fired s)).
            e \<notin> set (endEvents (fired s)) \<longrightarrow> currentExecution s = Some e)
    \<and> (currentExecution s = Some e \<longrightarrow>
         (\<exists>e'. e' \<noteq> e
            \<and> currentExecution (startShellExecution c w s) = Some e'
            \<and> fired (startShellExecution c w s)
                = fired s @ [DidEndTerminalShellExecution e None, DidStartTerminalShellExecution e'])
         \<and> ex_ended (h_executions (heap (startShellExecution c w s)) ! e)
         \<and> ex_dataStream (h_executions (heap (startShellExecution c w s)) ! e) = None)"
proof (intro conjI impI)
  have inv: "sessionInv s"
    unfolding assms(1) by (rule sessionInv_run [OF sessionInv_newSession])
  show "\<forall>e \<in> set (startEvents (fired s)).
            e \<notin> set (endEvents (fired s)) \<longrightarrow> currentExecution s = Some e"
    using queueInvD(10) [OF inv [unfolded sessionInv_def]] assms(2) by blast
  assume cur: "currentExecution s = Some e"
  from startShellExecution_supersedes [OF inv cur, of c w]
  obtain e' where e': "e' \<noteq> e" "currentExecution (startShellExecution c w s) = Some e'"
    "fired (startShellExecution c w s)
          = fired s @ (if disposed s then [] else [DidEndTerminalShellExecution e None])
            @ [DidStartTerminalShellExecution e']"
    "ex_ended (h_executions (heap (startShellExecution c w s)) ! e)"
    "ex_dataStream (h_executions (heap (startShellExecution c w s)) ! e) = None"
    by blast
  show "\<exists>e'. e' \<noteq> e
            \<and> currentExecution (startShellExecution c w s) = Some e'
            \<and> fired (startShellExecution c w s)
                = fired s @ [DidEndTerminalShellExecution e None, DidStartTerminalShellExecution e']"
    using e'(1,2,3) assms(2) by auto
  show "ex_ended (h_executions (heap (startShellExecution c w s)) ! e)" by (rule e'(4))
  show "ex_dataStream (h_executions (heap (startShellExecution c w s)) ! e) = None" by (rule e'(5))
qed

theorem at_most_one_current_witness:
  "currentExecution oneReader = Some 0
   \<and> currentExecution (startShellExecution (cmd ''pwd'' High) None oneReader) = Some 1
   \<and> fired (startShellExecution (cmd ''pwd'' High) None oneReader)
       = [DidStartTerminalShellExecution 0, DidEndTerminalShellExecution 0 None,
          DidStartTerminalShellExecution 1]
   \<and> ex_ended (h_executions (heap (startShellExecution (cmd ''pwd'' High) None oneReader)) ! 0)"
proof -
  have d: "\<not> disposed oneReader" by (simp add: oneReader_full)
  have c: "currentExecution oneReader = Some 0"
    "currentExecution (startShellExecution (cmd ''pwd'' High) None oneReader) = Some 1"
    "fired oneReader = [DidStartTerminalShellExecution 0]"
    by (simp_all add: oneReader_full heap_defs session_defs cmd_def)
  show ?thesis
    using at_most_one_current [OF oneReader_def d, of 0 "cmd ''pwd'' High" None] c
    by auto
qed

lemma endShellExecution_current:
  assumes "sessionInv s" and "currentExecution s = Some e"
  shows "endShellExecution c x s =
     s\<lparr>heap := endExecution e c (heap s),
       pendingEnds := pendingEnds s @
         [\<lparr>pe_execution = e, pe_exitCode = x, pe_awaits = AwaitNothing\<rparr>]\<rparr>"
  using sessionInv_current(1) [OF assms]
  by (simp add: endShellExecution_def assms(2) flush_endExecution)

subsection \<open>One end event\<close>

text \<open>
  Claim C5. In every run of a session no execution gets two end events. In particular,
  when the shell reports the end of the current execution and a start supersedes it
  before the callback of \<^verbatim>\<open>flush().then\<close> has run, the start fires the end event (if
  the session is not disposed) and makes another execution current; the callback,
  when it runs, finds that the current execution is not the one it captured and
  changes nothing but its own removal from the pending callbacks.
\<close>

theorem at_most_one_end_event:
  assumes "s = run sigs newSession"
  shows "distinct (endEvents (fired s))
    \<and> (currentExecution s = Some e \<longrightarrow>
         currentExecution (startShellExecution c' w (endShellExecution c x s)) \<noteq> Some e
         \<and> (\<not> disposed s \<longrightarrow>
              DidEndTerminalShellExecution e None
                \<in> set (fired (startShellExecution c' w (endShellExecution c x s))))
         \<and> resumeEnd (length (pendingEnds s)) (startShellExecution c' w (endShellExecution c x s))
             = (startShellExecution c' w (endShellExecution c x s))\<lparr>pendingEnds := pendingEnds s\<rparr>)"
proof (intro conjI impI)
  have inv: "sessionInv s"
    unfolding assms by (rule sessionInv_run [OF sessionInv_newSession])
  show "distinct (endEvents (fired s))"
    by (rule queueInvD(9) [OF inv [unfolded sessionInv_def]])
  assume cur: "currentExecution s = Some e"
  let ?p = "\<lparr>pe_execution = e, pe_exitCode = x, pe_awaits = AwaitNothing\<rparr>"
  let ?s1 = "endShellExecution c x s"
  let ?s2 = "startShellExecution c' w ?s1"
  note s1 = endShellExecution_current [OF inv cur, of c x]
  have inv1: "sessionInv ?s1"
    using sessionInv_step [OF inv, of "ShellExecutionEnd c x"] by simp
  have cur1: "currentExecution ?s1 = Some e" "disposed ?s1 = disposed s"
    "fired ?s1 = fired s" "pendingEnds ?s1 = pendingEnds s @ [?p]"
    by (simp_all add: s1 cur)
  from startShellExecution_supersedes [OF inv1 cur1(1), of c' w]
  obtain e' where e': "e' \<noteq> e" "currentExecution ?s2 = Some e'"
    "fired ?s2 = fired ?s1 @ (if disposed ?s1 then [] else [DidEndTerminalShellExecution e None])
            @ [DidStartTerminalShellExecution e']"
    "pendingEnds ?s2 = pendingEnds ?s1"
    by blast
  show "currentExecution ?s2 \<noteq> Some e" using e'(1,2) by simp
  show "DidEndTerminalShellExecution e None \<in> set (fired ?s2)" if "\<not> disposed s"
    using that by (simp add: e'(3) cur1)
  have pe: "pendingEnds ?s2 = pendingEnds s @ [?p]" by (simp add: e'(4) cur1(4))
  show "resumeEnd (length (pendingEnds s)) ?s2 = ?s2\<lparr>pendingEnds := pendingEnds s\<rparr>"
    using e'(1,2) by (simp add: resumeEnd_def pe resolved_def endCallback_def)
qed

theorem at_most_one_end_event_witness:
  "endEvents (fired (run [ShellExecutionEnd None (Some 0), ShellExecutionStart (cmd ''pwd'' High) None,
       ResumeEnd 0] oneReader)) = [0]
   \<and> fired (run [ShellExecutionEnd None (Some 0), ShellExecutionStart (cmd ''pwd'' High) None,
       ResumeEnd 0] oneReader)
     = [DidStartTerminalShellExecution 0, DidEndTerminalShellExecution 0 None,
        DidStartTerminalShellExecution 1]"
proof -
  let ?s2 = "startShellExecution (cmd ''pwd'' High) None (endShellExecution None (Some 0) oneReader)"
  have c: "currentExecution oneReader = Some 0" "pendingEnds oneReader = []"
    by (simp_all add: oneReader_full)
  have f: "fired ?s2 = [DidStartTerminalShellExecution 0, DidEndTerminalShellExecution 0 None,
        DidStartTerminalShellExecution 1]"
    by (simp add: oneReader_full heap_defs session_defs cmd_def)
  have "resumeEnd 0 ?s2 = ?s2\<lparr>pendingEnds := []\<rparr>"
    using at_most_one_end_event [OF oneReader_def, of 0 "cmd ''pwd'' High" None None "Some 0"] c
    by simp
  then have "fired (resumeEnd 0 ?s2) = fired ?s2" by simp
  then show ?thesis by (simp add: f)
qed

subsection \<open>The end event and the readers\<close>

lemma pendingEnds_startShellExecution [simp]:
  "pendingEnds (startShellExecution c w s) = pendingEnds s"
proof -
  have e: "pendingEnds (endCurrent s) = pendingEnds s"
    by (simp add: endCurrent_def fire_def split: option.splits)
  show ?thesis
  proof (cases c "endCurrent s" rule: pickExecution_cases)
    case none
    then show ?thesis
      by (simp add: startShellExecution_def makeCurrent_def fireService_def allocExecution_def e)
  next
    case (some pre e' post)
    then show ?thesis by (simp add: startShellExecution_def makeCurrent_def fireService_def e)
  qed
qed

lemma pendingEnds_endCallback [simp]:
  "pendingEnds (endCallback p s) = pendingEnds s"
  by (simp add: endCallback_def fire_def)

lemma awaitNothing_step:
  assumes "sessionInv s" and "list_all (\<lambda>p. pe_awaits p = AwaitNothing) (pendingEnds s)"
  shows "list_all (\<lambda>p. pe_awaits p = AwaitNothing) (pendingEnds (step x s))"
proof (cases x)
  case (ExecuteCommand c args)
  then show ?thesis using assms(2)
    by (simp add: executeCommand_def requestNewShellExecution_def allocExecution_def fire_def)
next
  case (ShellExecutionStart c w)
  then show ?thesis using assms(2) by simp
next
  case (ShellExecutionEnd c x')
  show ?thesis
  proof (cases "currentExecution s")
    case None
    then show ?thesis using assms(2) by (simp add: ShellExecutionEnd endShellExecution_def)
  next
    case (Some e)
    show ?thesis
      using assms(2) by (simp add: ShellExecutionEnd endShellExecution_current [OF assms(1) Some])
  qed
next
  case (ShellExecutionData d)
  then show ?thesis using assms(2) by (simp add: emitData_def split: option.splits)
next
  case (ShellEnvChange ks vs t)
  then show ?thesis using assms(2) by (simp add: setEnv_def fireChangeEvent_def fire_def)
next
  case (CwdChange w)
  then show ?thesis using assms(2) by (simp add: setCwd_def fireChangeEvent_def fire_def)
next
  case (HasRichCommandDetection b)
  then show ?thesis using assms(2)
    by (simp add: setHasRichCommandDetection_def fireChangeEvent_def fire_def)
next
  case Dispose
  then show ?thesis using assms(2) by (simp add: dispose_def)
next
  case (Read e)
  then show ?thesis using assms(2) by simp
next
  case (RunExecutor r)
  then show ?thesis using assms(2) by simp
next
  case (Settle r)
  then show ?thesis using assms(2) by simp
next
  case (NextChunk r)
  then show ?thesis using assms(2) by simp
next
  case (ResumeEnd k)
  have "list_all (\<lambda>p. pe_awaits p = AwaitNothing) (take k (pendingEnds s) @ drop (Suc k) (pendingEnds s))"
    using assms(2) by (auto simp: list_all_iff dest: in_set_takeD in_set_dropD)
  then show ?thesis using assms(2) by (simp add: ResumeEnd resumeEnd_def)
qed

lemma awaitNothing_run:
  assumes "sessionInv s" and "list_all (\<lambda>p. pe_awaits p = AwaitNothing) (pendingEnds s)"
  shows "list_all (\<lambda>p. pe_awaits p = AwaitNothing) (pendingEnds (run xs s))"
  using assms
proof (induction xs arbitrary: s)
  case Nil
  then show ?case by simp
next
  case (Cons x xs)
  show ?case
    using Cons.IH [OF sessionInv_step [OF Cons.prems(1)] awaitNothing_step [OF Cons.prems]]
    by simp
qed

text \<open>
  Claim C1, evaluated. In every run of a session, each callback that
  \<^verbatim>\<open>endShellExecution\<close> has suspended waits for nothing: \<^verbatim>\<open>flush()\<close> is called behind
  \<^verbatim>\<open>endExecution\<close> and finds no stream. So the end event does not wait for the readers.
  In the run below a reader is attached to the current execution, a chunk arrives, the
  shell reports the end and the callback runs: the end event has been fired while the
  reader has neither been handed the chunk nor seen the end of its sequence, and its
  iterable is not even complete.
\<close>

theorem end_event_before_reader_termination:
  "list_all (\<lambda>p. pe_awaits p = AwaitNothing) (pendingEnds (run sigs newSession))
   \<and> fired (run [ShellExecutionData ''out'', ShellExecutionEnd None (Some 0), ResumeEnd 0] oneReader)
     = [DidStartTerminalShellExecution 0, DidEndTerminalShellExecution 0 (Some 0)]
   \<and> h_iterables (heap (run [ShellExecutionData ''out'', ShellExecutionEnd None (Some 0), ResumeEnd 0]
        oneReader)) ! 0
     = \<lparr>it_stream = 0, it_barrier = 0, it_started = True, it_done = False,
        it_results = [''out''], it_cursor = 0, it_sawEnd = False\<rparr>"
proof -
  have "list_all (\<lambda>p. pe_awaits p = AwaitNothing) (pendingEnds newSession)"
    by (simp add: newSession_def)
  then have 1: "list_all (\<lambda>p. pe_awaits p = AwaitNothing) (pendingEnds (run sigs newSession))"
    by (rule awaitNothing_run [OF sessionInv_newSession])
  have 2: "fired (run [ShellExecutionData ''out'', ShellExecutionEnd None (Some 0), ResumeEnd 0] oneReader)
     = [DidStartTerminalShellExecution 0, DidEndTerminalShellExecution 0 (Some 0)]"
    by (simp add: oneReader_full heap_defs session_defs resolved_def)
  have 3: "h_iterables (heap (run [ShellExecutionData ''out'', ShellExecutionEnd None (Some 0), ResumeEnd 0]
        oneReader)) ! 0
     = \<lparr>it_stream = 0, it_barrier = 0, it_started = True, it_done = False,
        it_results = [''out''], it_cursor = 0, it_sawEnd = False\<rparr>"
    by (simp add: oneReader_full heap_defs session_defs resolved_def)
  from 1 2 3 show ?thesis by (intro conjI)
qed

subsection \<open>Reading an execution that has ended\<close>

lemma endedAt_frame [simp]:
  "endedAt e (ex_emitData e' d h) = endedAt e h"
  "endedAt e (runExecutor r h) = endedAt e h"
  "endedAt e (settle r h) = endedAt e h"
  "endedAt e (next_chunk r h) = endedAt e h"
  by (simp_all add: endedAt_def)

lemma endedAt_endExecution:
  "e < length (h_executions h) \<Longrightarrow> endedAt e (endExecution e c h)"
  using endExecution_ended [of e h c] by (simp add: endedAt_def)

lemma executions_endExecution:
  "h_executions (endExecution e c h) =
     (h_executions h)[e := (h_executions (setCommandLine e c h) ! e)
        \<lparr>ex_dataStream := None, ex_ended := True\<rparr>]"
  by (simp add: endExecution_def updExecution_def setCommandLine_def split: option.splits)

lemma endedAt_endExecution_other:
  assumes "endedAt e h"
  shows "endedAt e (endExecution e' c h)"
proof (cases "e' = e")
  case True
  from assms have "e < length (h_executions h)" by (simp add: endedAt_def)
  then show ?thesis unfolding True by (rule endedAt_endExecution)
next
  case False
  with assms show ?thesis by (simp add: endedAt_def executions_endExecution)
qed

lemma executions_createDataStream:
  "h_executions (snd (createDataStream e h)) =
     (if ex_dataStream (h_executions h ! e) = None \<and> \<not> ex_ended (h_executions h ! e)
      then (h_executions h)[e := (h_executions h ! e)\<lparr>ex_dataStream := Some (length (h_streams h))\<rparr>]
      else h_executions h)"
  by (simp add: createDataStream_def updExecution_def split_beta split: option.splits)

lemma endedAt_createDataStream:
  assumes "endedAt e h"
  shows "endedAt e (snd (createDataStream e' h))"
  using assms by (cases "e' = e") (auto simp: endedAt_def executions_createDataStream)

lemma createDataStream_ended:
  "endedAt e h \<Longrightarrow> createDataStream e h = (EMPTY, h)"
  by (simp add: endedAt_def createDataStream_def)

lemma endedAt_alloc:
  "endedAt e (heap s) \<Longrightarrow> endedAt e (heap (allocExecution c w s))"
  by (simp add: endedAt_def allocExecution_def nth_append)

lemma endedAt_endCurrent:
  "endedAt e (heap s) \<Longrightarrow> endedAt e (heap (endCurrent s))"
  by (simp add: endCurrent_def fire_def endedAt_endExecution_other split: option.splits)

lemma endedAt_start:
  assumes "endedAt e (heap s)"
  shows "endedAt e (heap (startShellExecution c w s))"
proof (cases c "endCurrent s" rule: pickExecution_cases)
  case none
  then show ?thesis
    using endedAt_alloc [OF endedAt_endCurrent [OF assms]]
    by (simp add: startShellExecution_def makeCurrent_def fireService_def)
next
  case (some pre e' post)
  then show ?thesis
    using endedAt_endCurrent [OF assms]
    by (simp add: startShellExecution_def makeCurrent_def fireService_def)
qed

lemma endedAt_step:
  assumes "endedAt e (heap s)"
  shows "endedAt e (heap (step x s))"
proof (cases x)
  case (ExecuteCommand c args)
  have "endedAt e (heap (fire ev s))" for ev using assms by (simp add: fire_def)
  then show ?thesis using ExecuteCommand
    by (simp add: executeCommand_def requestNewShellExecution_def endedAt_alloc)
next
  case (ShellExecutionStart c w)
  then show ?thesis using assms by (simp add: endedAt_start)
next
  case (ShellExecutionEnd c x)
  then show ?thesis using assms
    by (simp add: endShellExecution_def endedAt_endExecution_other split: option.splits)
next
  case (ShellExecutionData d)
  then show ?thesis using assms
    by (simp add: emitData_def split: option.splits)
next
  case (ShellEnvChange ks vs t)
  then show ?thesis using assms by (simp add: setEnv_def fireChangeEvent_def fire_def)
next
  case (CwdChange w)
  then show ?thesis using assms by (simp add: setCwd_def fireChangeEvent_def fire_def)
next
  case (HasRichCommandDetection b)
  then show ?thesis using assms
    by (simp add: setHasRichCommandDetection_def fireChangeEvent_def fire_def)
next
  case Dispose
  then show ?thesis using assms by (simp add: dispose_def)
next
  case (Read e')
  then show ?thesis using assms by (simp add: endedAt_createDataStream)
next
  case (RunExecutor r)
  then show ?thesis using assms by simp
next
  case (Settle r)
  then show ?thesis using assms by simp
next
  case (NextChunk r)
  then show ?thesis using assms by simp
next
  case (ResumeEnd k)
  then show ?thesis using assms by (simp add: resumeEnd_def endCallback_def fire_def)
qed

lemma endedAt_run: "endedAt e (heap s) \<Longrightarrow> endedAt e (heap (run xs s))"
  by (induction xs arbitrary: s) (simp_all add: endedAt_step)

text \<open>
  Claim C7. Once \<^verbatim>\<open>endExecution\<close> has run on an execution, then after any further run
  of the session \<^verbatim>\<open>read()\<close> on that execution returns \<^verbatim>\<open>AsyncIterableObject.EMPTY\<close>
  and changes nothing: a sequence that is terminated from the start and yields no
  chunk. No stream is created, and nothing is raised.
\<close>

theorem read_after_endExecution:
  assumes "e < length (h_executions (heap s))"
    and "s' = run sigs (s\<lparr>heap := endExecution e c (heap s)\<rparr>)"
  shows "createDataStream e (heap s') = (EMPTY, heap s')
    \<and> chunks EMPTY (heap s') = []
    \<and> terminated EMPTY (heap s')"
proof -
  have "endedAt e (heap (s\<lparr>heap := endExecution e c (heap s)\<rparr>))"
    using assms(1) by (simp add: endedAt_endExecution)
  then have "endedAt e (heap s')" unfolding assms(2) by (rule endedAt_run)
  then show ?thesis by (simp add: createDataStream_ended chunks_def terminated_def)
qed

theorem read_after_endExecution_witness:
  "createDataStream 0
     (heap (run [ShellExecutionData ''late'', Settle 0, NextChunk 0]
        (oneReader\<lparr>heap := endExecution 0 None (heap oneReader)\<rparr>)))
   = (EMPTY,
      heap (run [ShellExecutionData ''late'', Settle 0, NextChunk 0]
        (oneReader\<lparr>heap := endExecution 0 None (heap oneReader)\<rparr>)))"
proof -
  have l: "0 < length (h_executions (heap oneReader))" by (simp add: oneReader_full)
  show ?thesis
    using read_after_endExecution [OF l refl, of "[ShellExecutionData ''late'', Settle 0, NextChunk 0]" None]
    by simp
qed

subsection \<open>The invariant of the store\<close>

lemma heapInvI:
  assumes "\<And>e s. e < length E \<Longrightarrow> ex_dataStream (E ! e) = Some s \<Longrightarrow> s < length S"
    and "\<And>e e' s. e < length E \<Longrightarrow> e' < length E \<Longrightarrow> ex_dataStream (E ! e) = Some s
            \<Longrightarrow> ex_dataStream (E ! e') = Some s \<Longrightarrow> e = e'"
    and "\<And>s b. s < length S \<Longrightarrow> ds_barrier (S ! s) = Some b \<Longrightarrow> b < length B \<and> \<not> B ! b"
    and "\<And>s s' b. s < length S \<Longrightarrow> s' < length S \<Longrightarrow> ds_barrier (S ! s) = Some b
            \<Longrightarrow> ds_barrier (S ! s') = Some b \<Longrightarrow> s = s'"
    and "\<And>r. r < length I \<Longrightarrow> it_stream (I ! r) < length S \<and> it_barrier (I ! r) < length B"
    and "\<And>r. r < length I \<Longrightarrow> it_done (I ! r) \<Longrightarrow> B ! it_barrier (I ! r)"
    and "\<And>e r. e < length E \<Longrightarrow> r < length I
            \<Longrightarrow> ex_dataStream (E ! e) = Some (it_stream (I ! r))
            \<Longrightarrow> ds_barrier (S ! it_stream (I ! r)) = Some (it_barrier (I ! r))"
    and "\<And>s. s < length S \<Longrightarrow> distinct (ds_emitters (S ! s))"
    and "\<And>s r. s < length S \<Longrightarrow>
            (r \<in> set (ds_emitters (S ! s))
             \<longleftrightarrow> r < length I \<and> it_started (I ! r) \<and> it_stream (I ! r) = s)"
    and "\<And>r. r < length I \<Longrightarrow> \<not> it_started (I ! r) \<Longrightarrow> it_results (I ! r) = []"
  shows "heapInv E S I B"
  unfolding heapInv_def
proof (intro conjI)
  show "\<forall>e s. e < length E \<and> ex_dataStream (E ! e) = Some s \<longrightarrow> s < length S"
    using assms(1) by blast
  show "\<forall>e e' s. e < length E \<and> e' < length E \<and> ex_dataStream (E ! e) = Some s
            \<and> ex_dataStream (E ! e') = Some s \<longrightarrow> e = e'"
    using assms(2) by blast
  show "\<forall>s b. s < length S \<and> ds_barrier (S ! s) = Some b \<longrightarrow> b < length B \<and> \<not> B ! b"
    using assms(3) by blast
  show "\<forall>s s' b. s < length S \<and> s' < length S \<and> ds_barrier (S ! s) = Some b
            \<and> ds_barrier (S ! s') = Some b \<longrightarrow> s = s'"
    using assms(4) by blast
  show "\<forall>r. r < length I \<longrightarrow> it_stream (I ! r) < length S \<and> it_barrier (I ! r) < length B"
    using assms(5) by blast
  show "\<forall>r. r < length I \<and> it_done (I ! r) \<longrightarrow> B ! it_barrier (I ! r)"
    using assms(6) by blast
  show "\<forall>e r. e < length E \<and> r < length I
            \<and> ex_dataStream (E ! e) = Some (it_stream (I ! r))
            \<longrightarrow> ds_barrier (S ! it_stream (I ! r)) = Some (it_barrier (I ! r))"
    using assms(7) by blast
  show "\<forall>s. s < length S \<longrightarrow> distinct (ds_emitters (S ! s))"
    using assms(8) by blast
  show "\<forall>s r. s < length S \<longrightarrow>
            (r \<in> set (ds_emitters (S ! s))
             \<longleftrightarrow> r < length I \<and> it_started (I ! r) \<and> it_stream (I ! r) = s)"
    using assms(9) by blast
  show "\<forall>r. r < length I \<and> \<not> it_started (I ! r) \<longrightarrow> it_results (I ! r) = []"
    using assms(10) by blast
qed

lemma heapInvD:
  assumes "heapInv E S I B"
  shows "\<And>e s. e < length E \<Longrightarrow> ex_dataStream (E ! e) = Some s \<Longrightarrow> s < length S"
    and "\<And>e e' s. e < length E \<Longrightarrow> e' < length E \<Longrightarrow> ex_dataStream (E ! e) = Some s
            \<Longrightarrow> ex_dataStream (E ! e') = Some s \<Longrightarrow> e = e'"
    and "\<And>s b. s < length S \<Longrightarrow> ds_barrier (S ! s) = Some b \<Longrightarrow> b < length B"
    and "\<And>s b. s < length S \<Longrightarrow> ds_barrier (S ! s) = Some b \<Longrightarrow> \<not> B ! b"
    and "\<And>s s' b. s < length S \<Longrightarrow> s' < length S \<Longrightarrow> ds_barrier (S ! s) = Some b
            \<Longrightarrow> ds_barrier (S ! s') = Some b \<Longrightarrow> s = s'"
    and "\<And>r. r < length I \<Longrightarrow> it_stream (I ! r) < length S"
    and "\<And>r. r < length I \<Longrightarrow> it_barrier (I ! r) < length B"
    and "\<And>r. r < length I \<Longrightarrow> it_done (I ! r) \<Longrightarrow> B ! it_barrier (I ! r)"
    and "\<And>e r. e < length E \<Longrightarrow> r < length I
            \<Longrightarrow> ex_dataStream (E ! e) = Some (it_stream (I ! r))
            \<Longrightarrow> ds_barrier (S ! it_stream (I ! r)) = Some (it_barrier (I ! r))"
    and "\<And>s. s < length S \<Longrightarrow> distinct (ds_emitters (S ! s))"
    and "\<And>s r. s < length S \<Longrightarrow> r \<in> set (ds_emitters (S ! s))
            \<Longrightarrow> r < length I \<and> it_started (I ! r) \<and> it_stream (I ! r) = s"
    and "\<And>r. r < length I \<Longrightarrow> it_started (I ! r) \<Longrightarrow> r \<in> set (ds_emitters (S ! it_stream (I ! r)))"
    and "\<And>r. r < length I \<Longrightarrow> \<not> it_started (I ! r) \<Longrightarrow> it_results (I ! r) = []"
proof -
  note a1 = assms [unfolded heapInv_def]
  note c1 = a1 [THEN conjunct1] and a2 = a1 [THEN conjunct2]
  note c2 = a2 [THEN conjunct1] and a3 = a2 [THEN conjunct2]
  note c3 = a3 [THEN conjunct1] and a4 = a3 [THEN conjunct2]
  note c4 = a4 [THEN conjunct1] and a5 = a4 [THEN conjunct2]
  note c5 = a5 [THEN conjunct1] and a6 = a5 [THEN conjunct2]
  note c6 = a6 [THEN conjunct1] and a7 = a6 [THEN conjunct2]
  note c7 = a7 [THEN conjunct1] and a8 = a7 [THEN conjunct2]
  note c8 = a8 [THEN conjunct1] and a9 = a8 [THEN conjunct2]
  note c9 = a9 [THEN conjunct1] and c10 = a9 [THEN conjunct2]
  show "\<And>e s. e < length E \<Longrightarrow> ex_dataStream (E ! e) = Some s \<Longrightarrow> s < length S"
    using c1 by blast
  show "\<And>e e' s. e < length E \<Longrightarrow> e' < length E \<Longrightarrow> ex_dataStream (E ! e) = Some s
            \<Longrightarrow> ex_dataStream (E ! e') = Some s \<Longrightarrow> e = e'"
    using c2 by blast
  show "\<And>s b. s < length S \<Longrightarrow> ds_barrier (S ! s) = Some b \<Longrightarrow> b < length B"
    using c3 by blast
  show "\<And>s b. s < length S \<Longrightarrow> ds_barrier (S ! s) = Some b \<Longrightarrow> \<not> B ! b"
    using c3 by blast
  show "\<And>s s' b. s < length S \<Longrightarrow> s' < length S \<Longrightarrow> ds_barrier (S ! s) = Some b
            \<Longrightarrow> ds_barrier (S ! s') = Some b \<Longrightarrow> s = s'"
    using c4 by blast
  show d6: "\<And>r. r < length I \<Longrightarrow> it_stream (I ! r) < length S"
    using c5 by blast
  show "\<And>r. r < length I \<Longrightarrow> it_barrier (I ! r) < length B"
    using c5 by blast
  show "\<And>r. r < length I \<Longrightarrow> it_done (I ! r) \<Longrightarrow> B ! it_barrier (I ! r)"
    using c6 by blast
  show "\<And>e r. e < length E \<Longrightarrow> r < length I
            \<Longrightarrow> ex_dataStream (E ! e) = Some (it_stream (I ! r))
            \<Longrightarrow> ds_barrier (S ! it_stream (I ! r)) = Some (it_barrier (I ! r))"
    using c7 by blast
  show "\<And>s. s < length S \<Longrightarrow> distinct (ds_emitters (S ! s))"
    using c8 by blast
  show "\<And>s r. s < length S \<Longrightarrow> r \<in> set (ds_emitters (S ! s))
            \<Longrightarrow> r < length I \<and> it_started (I ! r) \<and> it_stream (I ! r) = s"
    using c9 by blast
  show "\<And>r. r < length I \<Longrightarrow> it_started (I ! r) \<Longrightarrow> r \<in> set (ds_emitters (S ! it_stream (I ! r)))"
    using c9 d6 by blast
  show "\<And>r. r < length I \<Longrightarrow> \<not> it_started (I ! r) \<Longrightarrow> it_results (I ! r) = []"
    using c10 by blast
qed

lemma heapInv_executions:
  assumes "heapInv E S I B"
    and "\<And>e s. e < length E' \<Longrightarrow> ex_dataStream (E' ! e) = Some s
           \<Longrightarrow> e < length E \<and> ex_dataStream (E ! e) = Some s"
  shows "heapInv E' S I B"
proof (rule heapInvI, goal_cases)
  note D = heapInvD [OF assms(1)]
  case (1 e s) then show ?case using assms(2) D(1) by blast
next
  note D = heapInvD [OF assms(1)]
  case (2 e e' s) then show ?case using assms(2) [of e s] assms(2) [of e' s] D(2) [of e e' s] by blast
next
  case (3 s b) then show ?case using heapInvD(3,4) [OF assms(1)] by blast
next
  case (4 s s' b) then show ?case using heapInvD(5) [OF assms(1)] by blast
next
  case (5 r) then show ?case using heapInvD(6,7) [OF assms(1)] by blast
next
  case (6 r) then show ?case using heapInvD(8) [OF assms(1)] by blast
next
  case (7 e r) then show ?case using assms(2) [of e] heapInvD(9) [OF assms(1), of e r] by blast
next
  case (8 s) then show ?case using heapInvD(10) [OF assms(1)] by blast
next
  case (9 s r) then show ?case using heapInvD(11,12) [OF assms(1)] by blast
next
  case (10 r) then show ?case using heapInvD(13) [OF assms(1)] by blast
qed

lemma heapInv_iterables:
  assumes "heapInv E S I B" and "length I' = length I"
    and "\<And>r. r < length I \<Longrightarrow>
           it_stream (I' ! r) = it_stream (I ! r) \<and> it_barrier (I' ! r) = it_barrier (I ! r)
           \<and> it_started (I' ! r) = it_started (I ! r)
           \<and> (it_done (I' ! r) \<longrightarrow> it_done (I ! r) \<or> B ! it_barrier (I ! r))
           \<and> (\<not> it_started (I ! r) \<longrightarrow> it_results (I' ! r) = it_results (I ! r))"
  shows "heapInv E S I' B"
proof (rule heapInvI, goal_cases)
  case (1 e s) then show ?case using heapInvD(1) [OF assms(1)] by blast
next
  case (2 e e' s) then show ?case using heapInvD(2) [OF assms(1)] by blast
next
  case (3 s b) then show ?case using heapInvD(3,4) [OF assms(1)] by blast
next
  case (4 s s' b) then show ?case using heapInvD(5) [OF assms(1)] by blast
next
  case (5 r) then show ?case using heapInvD(6,7) [OF assms(1), of r] assms(2) assms(3) [of r] by simp
next
  case (6 r) then show ?case using heapInvD(8) [OF assms(1), of r] assms(2) assms(3) [of r] by auto
next
  case (7 e r) then show ?case using heapInvD(9) [OF assms(1), of e r] assms(2) assms(3) [of r] by simp
next
  case (8 s) then show ?case using heapInvD(10) [OF assms(1)] by blast
next
  case (9 s r)
  show ?case
  proof
    assume "r \<in> set (ds_emitters (S ! s))"
    from heapInvD(11) [OF assms(1) 9 this] show "r < length I' \<and> it_started (I' ! r) \<and> it_stream (I' ! r) = s"
      using assms(2) assms(3) [of r] by simp
  next
    assume a: "r < length I' \<and> it_started (I' ! r) \<and> it_stream (I' ! r) = s"
    then have "r < length I" "it_started (I ! r)" "it_stream (I ! r) = s"
      using assms(2) assms(3) [of r] by simp_all
    then show "r \<in> set (ds_emitters (S ! s))" using heapInvD(12) [OF assms(1), of r] by simp
  qed
next
  case (10 r) then show ?case using heapInvD(13) [OF assms(1), of r] assms(2) assms(3) [of r] by simp
qed

lemma heapInv_streams:
  assumes "heapInv E S I B" and "length S' = length S"
    and "\<And>s. s < length S \<Longrightarrow>
           ds_barrier (S' ! s) = ds_barrier (S ! s) \<and> ds_emitters (S' ! s) = ds_emitters (S ! s)"
  shows "heapInv E S' I B"
proof (rule heapInvI, goal_cases)
  case (1 e s) then show ?case using heapInvD(1) [OF assms(1)] assms(2) by simp
next
  case (2 e e' s) then show ?case using heapInvD(2) [OF assms(1)] by blast
next
  case (3 s b) then show ?case using heapInvD(3,4) [OF assms(1), of s b] assms(2) assms(3) [of s] by simp
next
  case (4 s s' b) then show ?case
    using heapInvD(5) [OF assms(1), of s s' b] assms(2) assms(3) [of s] assms(3) [of s'] by simp
next
  case (5 r) then show ?case using heapInvD(6,7) [OF assms(1), of r] assms(2) by simp
next
  case (6 r) then show ?case using heapInvD(8) [OF assms(1)] by blast
next
  case (7 e r) then show ?case
    using heapInvD(9) [OF assms(1), of e r] heapInvD(6) [OF assms(1), of r]
      assms(3) [of "it_stream (I ! r)"] by simp
next
  case (8 s) then show ?case using heapInvD(10) [OF assms(1), of s] assms(2) assms(3) [of s] by simp
next
  case (9 s r) then show ?case
    using heapInvD(11) [OF assms(1), of s r] heapInvD(12) [OF assms(1), of r] assms(2) assms(3) [of s]
    by auto
next
  case (10 r) then show ?case using heapInvD(13) [OF assms(1)] by blast
qed

lemma heapInv_alloc:
  assumes "heapInv E S I B" and "ex_dataStream x = None"
  shows "heapInv (E @ [x]) S I B"
proof (rule heapInv_executions [OF assms(1)])
  fix e s
  assume "e < length (E @ [x])" and "ex_dataStream ((E @ [x]) ! e) = Some s"
  then show "e < length E \<and> ex_dataStream (E ! e) = Some s"
    using assms(2) by (cases "e < length E") (auto simp: nth_append less_Suc_eq)
qed

lemma heapInv_attachNew:
  assumes "heapInv E S I B" and "e0 < length E"
  shows "heapInv (E[e0 := (E ! e0)\<lparr>ex_dataStream := Some (length S)\<rparr>]) (S @ [newDataStream]) I B"
    (is "heapInv ?E ?S I B")
proof (rule heapInvI, goal_cases)
  note D = heapInvD [OF assms(1)]
  have att: "(e = e0 \<and> s = length S) \<or> (e \<noteq> e0 \<and> ex_dataStream (E ! e) = Some s \<and> s < length S)"
    if "e < length ?E" "ex_dataStream (?E ! e) = Some s" for e s
    using that D(1) [of e s] assms(2) by (cases "e = e0") (auto simp: nth_upd)
  have old: "?S ! s = S ! s" if "s < length S" for s using that by (simp add: nth_append)
  have new: "?S ! length S = newDataStream" by simp
  have sc: "s < length S \<or> s = length S" if "s < length ?S" for s using that by auto
  {
    case (1 e s) then show ?case using att [of e s] by auto
  next
    case (2 e e' s) then show ?case using att [of e s] att [of e' s] D(2) [of e e' s] by auto
  next
    case (3 s b) then show ?case
      using sc [of s] old [of s] new D(3,4) [of s b] by (auto simp: newDataStream_def)
  next
    case (4 s s' b) then show ?case
      using sc [of s] sc [of s'] old [of s] old [of s'] new D(5) [of s s' b]
      by (auto simp: newDataStream_def)
  next
    case (5 r) then show ?case using D(6,7) [of r] by auto
  next
    case (6 r) then show ?case using D(8) by blast
  next
    case (7 e r) then show ?case
      using att [of e "it_stream (I ! r)"] D(6) [of r] D(9) [of e r] old [of "it_stream (I ! r)"]
      by auto
  next
    case (8 s) then show ?case
      using sc [of s] old [of s] new D(10) [of s] by (auto simp: newDataStream_def)
  next
    case (9 s r) then show ?case
      using sc [of s] old [of s] new D(11) [of s r] D(12) [of r] D(6) [of r]
      by (auto simp: newDataStream_def)
  next
    case (10 r) then show ?case using D(13) by blast
  }
qed

lemma heapInv_newBarrier:
  assumes "heapInv E S I B" and "s0 < length S" and "ds_barrier (S ! s0) = None"
  shows "heapInv E (S[s0 := (S ! s0)\<lparr>ds_barrier := Some (length B)\<rparr>]) I (B @ [False])"
    (is "heapInv E ?S I ?B")
proof (rule heapInvI, goal_cases)
  note D = heapInvD [OF assms(1)]
  have bar: "(s = s0 \<and> b = length B) \<or> (s \<noteq> s0 \<and> ds_barrier (S ! s) = Some b \<and> b < length B \<and> \<not> B ! b)"
    if "s < length ?S" "ds_barrier (?S ! s) = Some b" for s b
    using that D(3,4) [of s b] assms(2) by (cases "s = s0") (auto simp: nth_upd)
  have em: "ds_emitters (?S ! s) = ds_emitters (S ! s)" for s
    by (cases "s = s0") (auto simp: nth_upd)
  have oldB: "?B ! b = B ! b" if "b < length B" for b using that by (simp add: nth_append)
  have noIt: "it_stream (I ! r) \<noteq> s0" if "e < length E" "r < length I"
    "ex_dataStream (E ! e) = Some (it_stream (I ! r))" for e r
    using D(9) [OF that] assms(3) by auto
  {
    case (1 e s) then show ?case using D(1) [of e s] by simp
  next
    case (2 e e' s) then show ?case using D(2) by blast
  next
    case (3 s b) then show ?case using bar [of s b] by (auto simp: nth_append)
  next
    case (4 s s' b) then show ?case using bar [of s b] bar [of s' b] D(5) [of s s' b] by auto
  next
    case (5 r) then show ?case using D(6,7) [of r] by auto
  next
    case (6 r) then show ?case using D(7,8) [of r] oldB [of "it_barrier (I ! r)"] by auto
  next
    case (7 e r) then show ?case
      using noIt [of e r] D(9) [of e r] by (auto simp: nth_upd)
  next
    case (8 s) then show ?case using D(10) [of s] em [of s] by simp
  next
    case (9 s r) then show ?case using D(11) [of s r] D(12) [of r] em [of s] by auto
  next
    case (10 r) then show ?case using D(13) by blast
  }
qed

lemma heapInv_pushIterable:
  assumes "heapInv E S I B" and "s0 < length S" and "ds_barrier (S ! s0) = Some b0"
  shows "heapInv E (S[s0 := (S ! s0)\<lparr>ds_iterables := its\<rparr>]) (I @ [newIterable s0 b0]) B"
proof -
  have 1: "heapInv E S (I @ [newIterable s0 b0]) B" (is "heapInv E S ?I B")
  proof (rule heapInvI, goal_cases)
    note D = heapInvD [OF assms(1)]
    have old: "?I ! r = I ! r" if "r < length I" for r using that by (simp add: nth_append)
    have new: "?I ! length I = newIterable s0 b0" by simp
    have rc: "r < length I \<or> r = length I" if "r < length ?I" for r using that by auto
    {
      case (1 e s) then show ?case using D(1) by blast
    next
      case (2 e e' s) then show ?case using D(2) by blast
    next
      case (3 s b) then show ?case using D(3,4) by blast
    next
      case (4 s s' b) then show ?case using D(5) by blast
    next
      case (5 r) then show ?case
        using rc [of r] old [of r] new D(6,7) [of r] assms(2) D(3) [OF assms(2,3)]
        by (auto simp: newIterable_def)
    next
      case (6 r) then show ?case
        using rc [of r] old [of r] new D(8) [of r] by (auto simp: newIterable_def)
    next
      case (7 e r) then show ?case
        using rc [of r] old [of r] new D(9) [of e r] assms(3) by (auto simp: newIterable_def)
    next
      case (8 s) then show ?case using D(10) by blast
    next
      case (9 s r)
      have "\<not> it_started (?I ! length I)" by (simp add: newIterable_def)
      moreover have "r \<in> set (ds_emitters (S ! s)) \<Longrightarrow> r < length I" using D(11) [OF 9] by blast
      ultimately show ?case
        using D(11) [OF 9, of r] D(12) [of r] old [of r] by (auto simp: less_Suc_eq)
    next
      case (10 r) then show ?case
        using rc [of r] old [of r] new D(13) [of r] by (auto simp: newIterable_def)
    }
  qed
  show ?thesis
    by (rule heapInv_streams [OF 1]) (auto simp: nth_upd)
qed

lemma heapInv_endStream:
  assumes "heapInv E S I B" and "e0 < length E" and "ex_dataStream (E ! e0) = Some s0"
    and "ex_dataStream x = None" and "ds_barrier (S ! s0) = Some b0"
  shows "heapInv (E[e0 := x]) (S[s0 := (S ! s0)\<lparr>ds_barrier := None\<rparr>]) I (B[b0 := True])"
    (is "heapInv ?E ?S I ?B")
proof (rule heapInvI, goal_cases)
  note D = heapInvD [OF assms(1)]
  have s0: "s0 < length S" using D(1) [OF assms(2,3)] .
  have att: "e \<noteq> e0 \<and> ex_dataStream (E ! e) = Some s"
    if "e < length ?E" "ex_dataStream (?E ! e) = Some s" for e s
    using that assms(2,4) by (cases "e = e0") (auto simp: nth_upd)
  have bar: "s \<noteq> s0 \<and> ds_barrier (S ! s) = Some b \<and> b \<noteq> b0"
    if "s < length ?S" "ds_barrier (?S ! s) = Some b" for s b
    using that s0 D(5) [of s s0 b] assms(5) by (cases "s = s0") (auto simp: nth_upd)
  have em: "ds_emitters (?S ! s) = ds_emitters (S ! s)" for s
    by (cases "s = s0") (auto simp: nth_upd)
  {
    case (1 e s) then show ?case using att [of e s] D(1) [of e s] by simp
  next
    case (2 e e' s) then show ?case using att [of e s] att [of e' s] D(2) [of e e' s] by simp
  next
    case (3 s b) then show ?case using bar [of s b] D(3,4) [of s b] by (simp add: nth_upd)
  next
    case (4 s s' b) then show ?case using bar [of s b] bar [of s' b] D(5) [of s s' b] by simp
  next
    case (5 r) then show ?case using D(6,7) [of r] by simp
  next
    case (6 r) then show ?case using D(7,8) [of r] by (simp add: nth_upd)
  next
    case (7 e r)
    from att [of e "it_stream (I ! r)"] 7
    have a: "e \<noteq> e0" "ex_dataStream (E ! e) = Some (it_stream (I ! r))" "e < length E" by simp_all
    have "it_stream (I ! r) \<noteq> s0" using D(2) [OF a(3) assms(2) a(2)] assms(3) a(1) by auto
    then show ?case using D(9) [OF a(3) 7(2) a(2)] by (simp add: nth_upd)
  next
    case (8 s) then show ?case using D(10) [of s] em [of s] by simp
  next
    case (9 s r) then show ?case using D(11) [of s r] D(12) [of r] em [of s] by auto
  next
    case (10 r) then show ?case using D(13) by blast
  }
qed

lemma heapInv_runExecutor:
  assumes "heapInv E S I B" and "r0 < length I" and "\<not> it_started (I ! r0)"
  shows "heapInv E
           (S[it_stream (I ! r0) := (S ! it_stream (I ! r0))
                \<lparr>ds_emitters := ds_emitters (S ! it_stream (I ! r0)) @ [r0]\<rparr>])
           (I[r0 := (I ! r0)\<lparr>it_started := True\<rparr>]) B"
    (is "heapInv E ?S ?I B")
proof (rule heapInvI, goal_cases)
  note D = heapInvD [OF assms(1)]
  let ?s0 = "it_stream (I ! r0)"
  have s0: "?s0 < length S" using D(6) [OF assms(2)] .
  have bar: "ds_barrier (?S ! s) = ds_barrier (S ! s)" for s
    by (cases "s = ?s0") (auto simp: nth_upd)
  have em: "ds_emitters (?S ! s) = (if s = ?s0 then ds_emitters (S ! s) @ [r0] else ds_emitters (S ! s))"
    if "s < length S" for s using that by (auto simp: nth_upd)
  have it: "it_stream (?I ! r) = it_stream (I ! r)" "it_barrier (?I ! r) = it_barrier (I ! r)"
    "it_done (?I ! r) = it_done (I ! r)" "it_results (?I ! r) = it_results (I ! r)"
    "it_started (?I ! r) = (it_started (I ! r) \<or> (r = r0 \<and> r < length I))" for r
    by (cases "r = r0"; auto simp: nth_upd)+
  have notin: "r0 \<notin> set (ds_emitters (S ! s))" if "s < length S" for s
    using D(11) [OF that, of r0] assms(3) by blast
  {
    case (1 e s) then show ?case using D(1) [of e s] by simp
  next
    case (2 e e' s) then show ?case using D(2) by blast
  next
    case (3 s b) then show ?case using D(3,4) [of s b] by (simp add: bar)
  next
    case (4 s s' b) then show ?case using D(5) [of s s' b] by (simp add: bar)
  next
    case (5 r) then show ?case using D(6,7) [of r] by (simp add: it)
  next
    case (6 r) then show ?case using D(8) [of r] by (simp add: it)
  next
    case (7 e r) then show ?case using D(9) [of e r] by (simp add: it bar)
  next
    case (8 s) then show ?case using D(10) [of s] notin [of s] by (auto simp: em)
  next
    case (9 s r) then show ?case
      using D(11) [of s r] D(12) [of r] assms(2) by (auto simp: em it)
  next
    case (10 r) then show ?case using D(13) [of r] by (simp add: it)
  }
qed

lemma heapInv_settle:
  assumes "heapInv E S I B" and "r0 < length I" and "B ! it_barrier (I ! r0)"
  shows "heapInv E S (I[r0 := (I ! r0)\<lparr>it_done := True\<rparr>]) B"
proof (rule heapInv_iterables [OF assms(1)])
  show "length (I[r0 := (I ! r0)\<lparr>it_done := True\<rparr>]) = length I" by simp
  fix r assume "r < length I"
  then show "it_stream (I[r0 := (I ! r0)\<lparr>it_done := True\<rparr>] ! r) = it_stream (I ! r) \<and>
         it_barrier (I[r0 := (I ! r0)\<lparr>it_done := True\<rparr>] ! r) = it_barrier (I ! r) \<and>
         it_started (I[r0 := (I ! r0)\<lparr>it_done := True\<rparr>] ! r) = it_started (I ! r) \<and>
         (it_done (I[r0 := (I ! r0)\<lparr>it_done := True\<rparr>] ! r) \<longrightarrow>
          it_done (I ! r) \<or> B ! it_barrier (I ! r)) \<and>
         (\<not> it_started (I ! r) \<longrightarrow>
          it_results (I[r0 := (I ! r0)\<lparr>it_done := True\<rparr>] ! r) = it_results (I ! r))"
    using assms(3) by (cases "r = r0") (auto simp: nth_upd)
qed

lemma fold_emitOne_nth:
  "r < length (h_iterables h) \<Longrightarrow>
   h_iterables (fold (emitOne d) rs h) ! r =
     (h_iterables h ! r)\<lparr>it_results := it_results (h_iterables h ! r) @
        (if it_done (h_iterables h ! r) then [] else replicate (count_list rs r) d)\<rparr>"
proof (induction rs arbitrary: h)
  case Nil
  then show ?case by simp
next
  case (Cons a rs)
  have l: "r < length (h_iterables (emitOne d a h))"
    using Cons.prems by (simp add: emitOne_def updIterable_def)
  have n: "h_iterables (emitOne d a h) ! r =
      (if a = r \<and> \<not> it_done (h_iterables h ! r)
       then (h_iterables h ! r)\<lparr>it_results := it_results (h_iterables h ! r) @ [d]\<rparr>
       else h_iterables h ! r)"
    using Cons.prems by (auto simp: emitOne_def updIterable_def nth_upd)
  show ?case
    using Cons.IH [OF l] by (auto simp: n replicate_append_same)
qed

lemma count_list_distinct:
  "distinct xs \<Longrightarrow> count_list xs x = (if x \<in> set xs then 1 else 0)"
  by (induction xs) auto

lemma hInv_allocExecution:
  "hInv (heap s) \<Longrightarrow> hInv (heap (allocExecution c w s))"
  by (simp add: hInv_def allocExecution_def heapInv_alloc newExecution_def)

lemma hInv_pushIterable:
  assumes "hInv h" and "st < length (h_streams h)" and "ds_barrier (h_streams h ! st) = Some b"
  shows "hInv (snd (pushIterable st b h))"
  using heapInv_pushIterable [OF assms(1) [unfolded hInv_def] assms(2,3)]
  by (simp add: hInv_def pushIterable_def updStream_def nth_append)

lemma hInv_ds_createIterable:
  assumes "hInv h" and "st < length (h_streams h)"
  shows "hInv (snd (ds_createIterable st h))"
proof (cases "ds_barrier (h_streams h ! st)")
  case None
  let ?h1 = "updStream st (\<lambda>x. x\<lparr>ds_barrier := Some (length (h_barriers h))\<rparr>)
               (h\<lparr>h_barriers := h_barriers h @ [False]\<rparr>)"
  have 1: "hInv ?h1"
    using heapInv_newBarrier [OF assms(1) [unfolded hInv_def] assms(2) None]
    by (simp add: hInv_def updStream_def)
  have 2: "st < length (h_streams ?h1)"
    "ds_barrier (h_streams ?h1 ! st) = Some (length (h_barriers h))"
    using assms(2) by (simp_all add: updStream_def)
  show ?thesis
    using hInv_pushIterable [OF 1 2] by (simp add: ds_createIterable_def None)
next
  case (Some b)
  then show ?thesis
    using hInv_pushIterable [OF assms Some] by (simp add: ds_createIterable_def)
qed

lemma hInv_createDataStream:
  assumes "hInv h" and "e < length (h_executions h)"
  shows "hInv (snd (createDataStream e h))"
proof (cases "ex_dataStream (h_executions h ! e)")
  case None
  show ?thesis
  proof (cases "ex_ended (h_executions h ! e)")
    case True
    then show ?thesis using assms(1) None by (simp add: createDataStream_def)
  next
    case False
    let ?h1 = "updExecution e (\<lambda>x. x\<lparr>ex_dataStream := Some (length (h_streams h))\<rparr>)
                 (h\<lparr>h_streams := h_streams h @ [newDataStream]\<rparr>)"
    have 1: "hInv ?h1"
      using heapInv_attachNew [OF assms(1) [unfolded hInv_def] assms(2)]
      by (simp add: hInv_def updExecution_def)
    have 2: "length (h_streams h) < length (h_streams ?h1)"
      by (simp add: updExecution_def)
    show ?thesis
      using hInv_ds_createIterable [OF 1 2] None False
      by (simp add: createDataStream_def split_beta)
  qed
next
  case (Some st)
  have "st < length (h_streams h)"
    using heapInvD(1) [OF assms(1) [unfolded hInv_def] assms(2) Some] .
  then show ?thesis
    using hInv_ds_createIterable [OF assms(1)] Some
    by (simp add: createDataStream_def split_beta)
qed

lemma hInv_endExecution:
  assumes "hInv h" and "e < length (h_executions h)"
  shows "hInv (endExecution e c h)"
proof -
  note inv = assms(1) [unfolded hInv_def]
  let ?E = "h_executions h"
  let ?x = "(h_executions (setCommandLine e c h) ! e)\<lparr>ex_dataStream := None, ex_ended := True\<rparr>"
  have frame: "h_streams (setCommandLine e c h) = h_streams h"
    "h_iterables (setCommandLine e c h) = h_iterables h"
    "h_barriers (setCommandLine e c h) = h_barriers h"
    by (simp_all add: setCommandLine_def updExecution_def split: option.splits)
  have E: "h_executions (endExecution e c h) = ?E[e := ?x]"
    by (simp add: endExecution_def updExecution_def setCommandLine_def ds_endExecution_def
        updStream_def split: option.splits)
  have I: "h_iterables (endExecution e c h) = h_iterables h"
    by (simp add: endExecution_def updExecution_def ds_endExecution_def
        updStream_def frame split: option.splits)
  have x: "ex_dataStream ?x = None" by simp
  have fewer: "e' < length ?E \<and> ex_dataStream (?E ! e') = Some s"
    if "e' < length (?E[e := ?x])" "ex_dataStream (?E[e := ?x] ! e') = Some s" for e' s
    using that by (cases "e' = e") (auto simp: nth_upd)
  show ?thesis
  proof (cases "ex_dataStream (?E ! e)")
    case None
    have "h_streams (endExecution e c h) = h_streams h" "h_barriers (endExecution e c h) = h_barriers h"
      by (simp_all add: endExecution_def None updExecution_def frame)
    then show ?thesis
      using heapInv_executions [OF inv, of "?E[e := ?x]"] fewer by (simp add: hInv_def E I)
  next
    case (Some s0)
    note att = Some
    have s0: "s0 < length (h_streams h)" using heapInvD(1) [OF inv assms(2) att] .
    show ?thesis
    proof (cases "ds_barrier (h_streams h ! s0)")
      case None
      have S: "h_streams (endExecution e c h)
          = (h_streams h)[s0 := (h_streams h ! s0)\<lparr>ds_barrier := None\<rparr>]"
        and B: "h_barriers (endExecution e c h) = h_barriers h"
        by (simp_all add: endExecution_def att updExecution_def ds_endExecution_def updStream_def
            frame None)
      have 1: "heapInv (?E[e := ?x]) (h_streams h) (h_iterables h) (h_barriers h)"
        using heapInv_executions [OF inv, of "?E[e := ?x]"] fewer by simp
      have "heapInv (?E[e := ?x]) ((h_streams h)[s0 := (h_streams h ! s0)\<lparr>ds_barrier := None\<rparr>])
          (h_iterables h) (h_barriers h)"
        by (rule heapInv_streams [OF 1]) (use None in \<open>auto simp: nth_upd\<close>)
      then show ?thesis by (simp add: hInv_def E I S B)
    next
      case (Some b0)
      have S: "h_streams (endExecution e c h)
          = (h_streams h)[s0 := (h_streams h ! s0)\<lparr>ds_barrier := None\<rparr>]"
        and B: "h_barriers (endExecution e c h) = (h_barriers h)[b0 := True]"
        by (simp_all add: endExecution_def att updExecution_def ds_endExecution_def updStream_def
            frame Some)
      show ?thesis
        using heapInv_endStream [OF inv assms(2) att x Some]
        by (simp add: hInv_def E I S B)
    qed
  qed
qed

lemma hInv_ds_emitData:
  assumes "hInv h" and "st < length (h_streams h)"
  shows "hInv (ds_emitData st d h)"
proof -
  note inv = assms(1) [unfolded hInv_def]
  let ?I' = "h_iterables (ds_emitData st d h)"
  have "heapInv (h_executions h) (h_streams h) ?I' (h_barriers h)"
  proof (rule heapInv_iterables [OF inv])
    show "length ?I' = length (h_iterables h)" by (simp add: ds_emitData_def)
    fix r assume r: "r < length (h_iterables h)"
    have "\<not> it_started (h_iterables h ! r) \<Longrightarrow> count_list (ds_emitters (h_streams h ! st)) r = 0"
      using heapInvD(11) [OF inv assms(2), of r] by (auto simp: count_list_0_iff)
    then show "it_stream (?I' ! r) = it_stream (h_iterables h ! r) \<and>
         it_barrier (?I' ! r) = it_barrier (h_iterables h ! r) \<and>
         it_started (?I' ! r) = it_started (h_iterables h ! r) \<and>
         (it_done (?I' ! r) \<longrightarrow>
          it_done (h_iterables h ! r) \<or> h_barriers h ! it_barrier (h_iterables h ! r)) \<and>
         (\<not> it_started (h_iterables h ! r) \<longrightarrow>
          it_results (?I' ! r) = it_results (h_iterables h ! r))"
      by (simp add: ds_emitData_def fold_emitOne_nth [OF r])
  qed
  then show ?thesis by (simp add: hInv_def ds_emitData_def)
qed

lemma hInv_ex_emitData:
  assumes "hInv h" and "e < length (h_executions h)"
  shows "hInv (ex_emitData e d h)"
proof (cases "ex_dataStream (h_executions h ! e)")
  case None
  then show ?thesis using assms(1) by (simp add: ex_emitData_def)
next
  case (Some st)
  have "st < length (h_streams h)"
    using heapInvD(1) [OF assms(1) [unfolded hInv_def] assms(2) Some] .
  then show ?thesis using hInv_ds_emitData [OF assms(1)] Some by (simp add: ex_emitData_def)
qed

lemma hInv_runExecutor: "hInv h \<Longrightarrow> hInv (runExecutor r h)"
  using heapInv_runExecutor [of "h_executions h" "h_streams h" "h_iterables h" "h_barriers h" r]
  by (simp add: hInv_def runExecutor_def updStream_def updIterable_def)

lemma hInv_settle: "hInv h \<Longrightarrow> hInv (settle r h)"
  using heapInv_settle [of "h_executions h" "h_streams h" "h_iterables h" "h_barriers h" r]
  by (simp add: hInv_def settle_def updIterable_def)

lemma hInv_next_chunk:
  assumes "hInv h"
  shows "hInv (next_chunk r h)"
proof -
  have "heapInv (h_executions h) (h_streams h) (h_iterables (next_chunk r h)) (h_barriers h)"
    by (rule heapInv_iterables [OF assms [unfolded hInv_def]])
      (auto simp: next_chunk_def updIterable_def nth_upd)
  moreover have "h_streams (next_chunk r h) = h_streams h" "h_barriers (next_chunk r h) = h_barriers h"
    by (simp_all add: next_chunk_def updIterable_def)
  ultimately show ?thesis by (simp add: hInv_def)
qed

subsection \<open>The invariants along a run\<close>

lemma sessionInv_currentD:
  assumes "sessionInv s" and "currentExecution s = Some e"
  shows "e < length (h_executions (heap s))"
  using queueInvD(4,7) [OF assms(1) [unfolded sessionInv_def]] assms(2) by blast

lemma heap_fire [simp]: "heap (fire ev s) = heap s"
  by (simp add: fire_def)

lemma heap_endCurrent:
  "heap (endCurrent s) =
     (case currentExecution s of None \<Rightarrow> heap s | Some e \<Rightarrow> endExecution e None (heap s))"
  by (simp add: endCurrent_def split: option.splits)

lemma heap_startShellExecution:
  "heap (startShellExecution c w s) = heap (endCurrent s)
   \<or> heap (startShellExecution c w s)
       = heap (allocExecution c (orElse w (cwd s)) (endCurrent s))"
proof (cases c "endCurrent s" rule: pickExecution_cases)
  case none
  then show ?thesis
    by (simp add: startShellExecution_def makeCurrent_def fireService_def allocExecution_def)
next
  case (some pre e post)
  then show ?thesis by (simp add: startShellExecution_def makeCurrent_def fireService_def)
qed

lemma hInv_endCurrent:
  assumes "wellFormed s"
  shows "hInv (heap (endCurrent s))"
proof (cases "currentExecution s")
  case None
  then show ?thesis using assms by (simp add: heap_endCurrent wellFormed_def)
next
  case (Some e)
  then show ?thesis
    using assms sessionInv_currentD [of s e]
    by (simp add: heap_endCurrent wellFormed_def hInv_endExecution)
qed

lemma hInv_step:
  assumes "wellFormed s"
  shows "hInv (heap (step x s))"
proof (cases x)
  case (ExecuteCommand c args)
  have "hInv (heap (fire ev s))" for ev using assms by (simp add: wellFormed_def)
  then show ?thesis using ExecuteCommand
    by (simp add: executeCommand_def requestNewShellExecution_def hInv_allocExecution)
next
  case (ShellExecutionStart c w)
  show ?thesis
    using heap_startShellExecution [of c w s] hInv_endCurrent [OF assms]
      hInv_allocExecution [of "endCurrent s" c "orElse w (cwd s)"]
    by (auto simp: ShellExecutionStart)
next
  case (ShellExecutionEnd c x')
  show ?thesis
  proof (cases "currentExecution s")
    case None
    then show ?thesis using assms by (simp add: ShellExecutionEnd endShellExecution_def wellFormed_def)
  next
    case (Some e)
    then show ?thesis
      using assms sessionInv_currentD [of s e]
      by (simp add: ShellExecutionEnd endShellExecution_def wellFormed_def hInv_endExecution)
  qed
next
  case (ShellExecutionData d)
  show ?thesis
  proof (cases "currentExecution s")
    case None
    then show ?thesis using assms by (simp add: ShellExecutionData emitData_def wellFormed_def)
  next
    case (Some e)
    then show ?thesis
      using assms sessionInv_currentD [of s e]
      by (simp add: ShellExecutionData emitData_def wellFormed_def hInv_ex_emitData)
  qed
next
  case (ShellEnvChange ks vs t)
  then show ?thesis using assms by (simp add: setEnv_def fireChangeEvent_def wellFormed_def)
next
  case (CwdChange w)
  then show ?thesis using assms by (simp add: setCwd_def fireChangeEvent_def wellFormed_def)
next
  case (HasRichCommandDetection b)
  then show ?thesis using assms
    by (simp add: setHasRichCommandDetection_def fireChangeEvent_def wellFormed_def)
next
  case Dispose
  then show ?thesis using assms by (simp add: dispose_def wellFormed_def)
next
  case (Read e)
  then show ?thesis using assms by (simp add: wellFormed_def hInv_createDataStream)
next
  case (RunExecutor r)
  then show ?thesis using assms by (simp add: wellFormed_def hInv_runExecutor)
next
  case (Settle r)
  then show ?thesis using assms by (simp add: wellFormed_def hInv_settle)
next
  case (NextChunk r)
  then show ?thesis using assms by (simp add: wellFormed_def hInv_next_chunk)
next
  case (ResumeEnd k)
  then show ?thesis using assms by (simp add: resumeEnd_def endCallback_def wellFormed_def)
qed

lemma wellFormed_step: "wellFormed s \<Longrightarrow> wellFormed (step x s)"
  using hInv_step [of s x] sessionInv_step [of s x] by (simp add: wellFormed_def)

lemma wellFormed_newSession: "wellFormed newSession"
proof -
  have "hInv (heap newSession)"
    by (simp add: hInv_def heapInv_def newSession_def emptyHeap_def)
  then show ?thesis by (simp add: wellFormed_def sessionInv_newSession)
qed

lemma wellFormed_run: "wellFormed s \<Longrightarrow> wellFormed (run xs s)"
  by (induction xs arbitrary: s) (simp_all add: wellFormed_step)

subsection \<open>What a reader receives\<close>

lemma keepsReader_refl: "r < length (h_iterables h) \<Longrightarrow> keepsReader r h h"
  by (simp add: keepsReader_def)

lemma keepsReader_iterables:
  "r < length (h_iterables h) \<Longrightarrow> h_iterables h' = h_iterables h \<Longrightarrow> keepsReader r h h'"
  by (simp add: keepsReader_def)

lemma iterables_endExecution [simp]:
  "h_iterables (endExecution e c h) = h_iterables h"
  by (simp add: endExecution_def updExecution_def ds_endExecution_def updStream_def
      setCommandLine_def split: option.splits)

lemma iterables_ds_createIterable:
  "h_iterables (snd (ds_createIterable st h)) =
     h_iterables h @ [newIterable st (case ds_barrier (h_streams h ! st) of
                                        None \<Rightarrow> length (h_barriers h) | Some b \<Rightarrow> b)]"
  by (simp add: ds_createIterable_def pushIterable_def updStream_def split: option.splits)

lemma keepsReader_createDataStream:
  assumes "r < length (h_iterables h)"
  shows "keepsReader r h (snd (createDataStream e h))"
proof -
  have "h_iterables (snd (createDataStream e h)) = h_iterables h
      \<or> (\<exists>x. h_iterables (snd (createDataStream e h)) = h_iterables h @ [x])"
    by (simp add: createDataStream_def split_beta iterables_ds_createIterable updExecution_def
        split: option.splits)
  then show ?thesis using assms by (auto simp: keepsReader_def nth_append)
qed

lemma keepsReader_runExecutor:
  "r < length (h_iterables h) \<Longrightarrow> keepsReader r h (runExecutor r' h)"
  by (cases "r = r'") (auto simp: keepsReader_def runExecutor_def updStream_def updIterable_def nth_upd)

lemma keepsReader_settle:
  "r < length (h_iterables h) \<Longrightarrow> keepsReader r h (settle r' h)"
  by (cases "r = r'") (auto simp: keepsReader_def settle_def updIterable_def nth_upd)

lemma keepsReader_next_chunk:
  "r < length (h_iterables h) \<Longrightarrow> keepsReader r h (next_chunk r' h)"
  by (cases "r = r'") (auto simp: keepsReader_def next_chunk_def updIterable_def nth_upd)

lemma iterables_startShellExecution [simp]:
  "h_iterables (heap (startShellExecution c w s)) = h_iterables (heap s)"
  using heap_startShellExecution [of c w s]
  by (auto simp: heap_endCurrent allocExecution_def split: option.splits)

text \<open>A chunk given to the session reaches a started iterable exactly when the iterable
  belongs to the stream of the current execution.\<close>

lemma emitData_reader:
  assumes "wellFormed s" and "r < length (h_iterables (heap s))"
    and "it_started (h_iterables (heap s) ! r)"
  shows "h_iterables (heap (emitData d s)) ! r =
     (h_iterables (heap s) ! r)\<lparr>it_results := it_results (h_iterables (heap s) ! r) @
        (if currentStream s = Some (it_stream (h_iterables (heap s) ! r)) then [d] else [])\<rparr>"
    and "length (h_iterables (heap (emitData d s))) = length (h_iterables (heap s))"
proof -
  note inv = assms(1) [unfolded wellFormed_def hInv_def, THEN conjunct2]
  note D = heapInvD [OF inv]
  let ?I = "h_iterables (heap s)"
  show "length (h_iterables (heap (emitData d s))) = length ?I"
    by (simp add: emitData_def ex_emitData_def ds_emitData_def split: option.splits)
  show "h_iterables (heap (emitData d s)) ! r =
     (?I ! r)\<lparr>it_results := it_results (?I ! r) @
        (if currentStream s = Some (it_stream (?I ! r)) then [d] else [])\<rparr>"
  proof (cases "currentStream s")
    case None
    then have "heap (emitData d s) = heap s"
      by (simp add: currentStream_def emitData_def ex_emitData_def split: option.splits)
    with None show ?thesis by simp
  next
    case (Some st)
    then obtain e where e: "currentExecution s = Some e"
      "ex_dataStream (h_executions (heap s) ! e) = Some st"
      by (auto simp: currentStream_def split: option.splits)
    have el: "e < length (h_executions (heap s))"
      using sessionInv_currentD [OF _ e(1)] assms(1) by (simp add: wellFormed_def)
    have st: "st < length (h_streams (heap s))" using D(1) [OF el e(2)] .
    have h: "heap (emitData d s) = fold (emitOne d) (ds_emitters (h_streams (heap s) ! st)) (heap s)"
      by (simp add: emitData_def ex_emitData_def ds_emitData_def e)
    have mem: "r \<in> set (ds_emitters (h_streams (heap s) ! st)) \<longleftrightarrow> it_stream (?I ! r) = st"
      using D(11) [OF st, of r] D(12) [OF assms(2,3)] by auto
    have cnt: "count_list (ds_emitters (h_streams (heap s) ! st)) r
        = (if it_stream (?I ! r) = st then 1 else 0)"
      using count_list_distinct [OF D(10) [OF st], of r] mem by simp
    have nd: "\<not> it_done (?I ! r)" if "it_stream (?I ! r) = st"
    proof
      assume "it_done (?I ! r)"
      then have "h_barriers (heap s) ! it_barrier (?I ! r)" using D(8) [OF assms(2)] by simp
      moreover have "ds_barrier (h_streams (heap s) ! st) = Some (it_barrier (?I ! r))"
        using D(9) [OF el assms(2)] e(2) that by simp
      ultimately show False using D(4) [OF st] by blast
    qed
    have res: "(if it_done (?I ! r) then []
                else replicate (count_list (ds_emitters (h_streams (heap s) ! st)) r) d)
        = (if st = it_stream (?I ! r) then [d] else [])"
      using nd cnt by auto
    show ?thesis
      by (simp only: h fold_emitOne_nth [OF assms(2)] res Some option.inject)
  qed
qed

lemma reader_step:
  assumes "wellFormed s" and "r < length (h_iterables (heap s))"
    and "it_started (h_iterables (heap s) ! r)"
  shows "r < length (h_iterables (heap (step x s)))
    \<and> it_started (h_iterables (heap (step x s)) ! r)
    \<and> it_stream (h_iterables (heap (step x s)) ! r) = it_stream (h_iterables (heap s) ! r)
    \<and> it_results (h_iterables (heap (step x s)) ! r)
        = it_results (h_iterables (heap s) ! r)
          @ pushedTo (it_stream (h_iterables (heap s) ! r)) [x] s"
proof -
  have keep: ?thesis if "keepsReader r (heap s) (heap (step x s))"
    "pushedTo (it_stream (h_iterables (heap s) ! r)) [x] s = []"
    using that assms(3) by (simp add: keepsReader_def)
  show ?thesis
  proof (cases x)
    case (ExecuteCommand c args)
    then show ?thesis using assms(2)
      by (intro keep keepsReader_iterables)
        (simp_all add: executeCommand_def requestNewShellExecution_def allocExecution_def)
  next
    case (ShellExecutionStart c w)
    then show ?thesis using assms(2) by (intro keep keepsReader_iterables) simp_all
  next
    case (ShellExecutionEnd c x')
    then show ?thesis using assms(2)
      by (intro keep keepsReader_iterables)
        (simp_all add: endShellExecution_def split: option.splits)
  next
    case (ShellExecutionData d)
    then show ?thesis
      using emitData_reader [OF assms, of d] assms(2,3) by simp
  next
    case (ShellEnvChange ks vs t)
    then show ?thesis using assms(2)
      by (intro keep keepsReader_iterables) (simp_all add: setEnv_def fireChangeEvent_def)
  next
    case (CwdChange w)
    then show ?thesis using assms(2)
      by (intro keep keepsReader_iterables) (simp_all add: setCwd_def fireChangeEvent_def)
  next
    case (HasRichCommandDetection b)
    then show ?thesis using assms(2)
      by (intro keep keepsReader_iterables)
        (simp_all add: setHasRichCommandDetection_def fireChangeEvent_def)
  next
    case Dispose
    then show ?thesis using assms(2)
      by (intro keep keepsReader_iterables) (simp_all add: dispose_def)
  next
    case (Read e)
    then show ?thesis using assms(2)
      by (intro keep) (simp_all add: keepsReader_createDataStream keepsReader_refl)
  next
    case (RunExecutor r')
    then show ?thesis using assms(2) by (intro keep) (simp_all add: keepsReader_runExecutor)
  next
    case (Settle r')
    then show ?thesis using assms(2) by (intro keep) (simp_all add: keepsReader_settle)
  next
    case (NextChunk r')
    then show ?thesis using assms(2) by (intro keep) (simp_all add: keepsReader_next_chunk)
  next
    case (ResumeEnd k)
    then show ?thesis using assms(2)
      by (intro keep keepsReader_iterables) (simp_all add: resumeEnd_def endCallback_def)
  qed
qed

lemma pushedTo_single: "pushedTo st (x # xs) s = pushedTo st [x] s @ pushedTo st xs (step x s)"
  by simp

lemma reader_run:
  assumes "wellFormed s" and "r < length (h_iterables (heap s))"
    and "it_started (h_iterables (heap s) ! r)"
  shows "it_results (h_iterables (heap (run xs s)) ! r)
     = it_results (h_iterables (heap s) ! r) @ pushedTo (it_stream (h_iterables (heap s) ! r)) xs s"
  using assms
proof (induction xs arbitrary: s)
  case Nil
  then show ?case by simp
next
  case (Cons x xs)
  note st = reader_step [OF Cons.prems, of x]
  have "it_results (h_iterables (heap (run xs (step x s))) ! r)
     = it_results (h_iterables (heap (step x s)) ! r)
       @ pushedTo (it_stream (h_iterables (heap (step x s)) ! r)) xs (step x s)"
    using st by (intro Cons.IH wellFormed_step [OF Cons.prems(1)]) simp_all
  then show ?case
    using st by (simp only: run.simps pushedTo_single [of _ x xs]) simp
qed

lemma afterRead_full:
  "afterRead =
     \<lparr>activeExecutions = [], currentExecution = Some 0, env = None, cwd = None,
      hasRichCommandDetection = False, disposed = False,
      heap =
        \<lparr>h_executions = [\<lparr>ex_commandLine = cmd ''ls'' High, ex_cwd = None,
                           ex_dataStream = Some 0, ex_ended = False\<rparr>],
         h_streams = [\<lparr>ds_barrier = Some 0, ds_iterables = [0], ds_emitters = []\<rparr>],
         h_iterables = [\<lparr>it_stream = 0, it_barrier = 0, it_started = False, it_done = False,
                          it_results = [], it_cursor = 0, it_sawEnd = False\<rparr>],
         h_barriers = [False]\<rparr>,
      pendingEnds = [], fired = [DidStartTerminalShellExecution 0], warnings = 0\<rparr>"
  by (simp add: afterRead_def cmd_def heap_defs session_defs)

text \<open>
  Claim C6 as stated fails when the reader counts as attached from the return of
  \<^verbatim>\<open>read()\<close>: \<^verbatim>\<open>createIterable\<close> registers the emitter in the executor, and a chunk
  pushed to the stream between the return of \<^verbatim>\<open>read()\<close> and the run of the executor
  reaches no emitter. Of the chunks \<open>a\<close> and \<open>b\<close> pushed behind \<^verbatim>\<open>read()\<close> the reader
  yields \<open>b\<close> only.
\<close>

theorem chunk_pushed_before_executor_is_lost:
  "createDataStream 0 (heap (run [ShellExecutionStart (cmd ''ls'' High) None] newSession))
     = (Iterable 0, heap afterRead)
   \<and> pushedTo 0 [ShellExecutionData ''a'', RunExecutor 0, ShellExecutionData ''b''] afterRead
     = [''a'', ''b'']
   \<and> chunks (Iterable 0)
       (heap (run [ShellExecutionData ''a'', RunExecutor 0, ShellExecutionData ''b''] afterRead))
     = [''b'']"
  by (simp add: afterRead_full heap_defs session_defs cmd_def chunks_def currentStream_def)

text \<open>
  Claim C6, amended. A reader receives chunks from the run of its iterable's executor,
  which pushes its emitter on \<^verbatim>\<open>_emitters\<close>. In every state that a session reaches, for
  every iterable whose executor has not run yet: its queue is empty, whatever has been
  pushed before, also behind the \<^verbatim>\<open>read()\<close> that returned it; and once the executor has
  run, after any further run of the session the chunks of the reader are exactly the
  chunks pushed to its stream since, in push order.
\<close>

theorem no_loss_on_attach:
  assumes "s = run pre newSession" and "r < length (h_iterables (heap s))"
    and "\<not> it_started (h_iterables (heap s) ! r)"
  shows "chunks (Iterable r) (heap s) = []
    \<and> chunks (Iterable r) (heap (run post (step (RunExecutor r) s)))
        = pushedTo (it_stream (h_iterables (heap s) ! r)) post (step (RunExecutor r) s)"
proof -
  have wf: "wellFormed s" unfolding assms(1) by (rule wellFormed_run [OF wellFormed_newSession])
  have empty: "it_results (h_iterables (heap s) ! r) = []"
    using heapInvD(13) [OF wf [unfolded wellFormed_def hInv_def, THEN conjunct2] assms(2,3)] .
  let ?s1 = "step (RunExecutor r) s"
  have wf1: "wellFormed ?s1" by (rule wellFormed_step [OF wf])
  have k: "keepsReader r (heap s) (heap ?s1)" using assms(2) by (simp add: keepsReader_runExecutor)
  have s1: "r < length (h_iterables (heap ?s1))" "it_started (h_iterables (heap ?s1) ! r)"
    "it_stream (h_iterables (heap ?s1) ! r) = it_stream (h_iterables (heap s) ! r)"
    "it_results (h_iterables (heap ?s1) ! r) = []"
    using k assms(2,3) empty
    by (simp_all add: keepsReader_def runExecutor_def updStream_def updIterable_def)
  have "it_results (h_iterables (heap (run post ?s1)) ! r)
      = it_results (h_iterables (heap ?s1) ! r)
        @ pushedTo (it_stream (h_iterables (heap ?s1) ! r)) post ?s1"
    by (rule reader_run [OF wf1 s1(1,2)])
  also have "\<dots> = pushedTo (it_stream (h_iterables (heap s) ! r)) post ?s1"
    by (simp only: s1(3,4) append_Nil)
  finally show ?thesis
    by (simp only: chunks_def reader.case empty simp_thms)
qed

lemma secondReader_full:
  "secondReader =
     \<lparr>activeExecutions = [], currentExecution = Some 0, env = None, cwd = None,
      hasRichCommandDetection = False, disposed = False,
      heap =
        \<lparr>h_executions = [\<lparr>ex_commandLine = cmd ''ls'' High, ex_cwd = None,
                           ex_dataStream = Some 0, ex_ended = False\<rparr>],
         h_streams = [\<lparr>ds_barrier = Some 0, ds_iterables = [0, 1], ds_emitters = [0]\<rparr>],
         h_iterables = [\<lparr>it_stream = 0, it_barrier = 0, it_started = True, it_done = False,
                          it_results = [''x''], it_cursor = 0, it_sawEnd = False\<rparr>,
                        \<lparr>it_stream = 0, it_barrier = 0, it_started = False, it_done = False,
                          it_results = [], it_cursor = 0, it_sawEnd = False\<rparr>],
         h_barriers = [False]\<rparr>,
      pendingEnds = [], fired = [DidStartTerminalShellExecution 0], warnings = 0\<rparr>"
  by (simp add: secondReader_def cmd_def heap_defs session_defs)

lemma afterGap_full:
  "afterGap =
     \<lparr>activeExecutions = [], currentExecution = Some 0, env = None, cwd = None,
      hasRichCommandDetection = False, disposed = False,
      heap =
        \<lparr>h_executions = [\<lparr>ex_commandLine = cmd ''ls'' High, ex_cwd = None,
                           ex_dataStream = Some 0, ex_ended = False\<rparr>],
         h_streams = [\<lparr>ds_barrier = Some 0, ds_iterables = [0], ds_emitters = []\<rparr>],
         h_iterables = [\<lparr>it_stream = 0, it_barrier = 0, it_started = False, it_done = False,
                          it_results = [], it_cursor = 0, it_sawEnd = False\<rparr>],
         h_barriers = [False]\<rparr>,
      pendingEnds = [], fired = [DidStartTerminalShellExecution 0], warnings = 0\<rparr>"
  by (simp add: afterGap_def cmd_def heap_defs session_defs)

theorem no_loss_on_attach_witness:
  "chunks (Iterable 1) (heap secondReader) = []
   \<and> chunks (Iterable 1)
       (heap (run [ShellExecutionData ''y'', ShellExecutionEnd None (Some 0), ShellExecutionData ''z'']
          (step (RunExecutor 1) secondReader))) = [''y'']
   \<and> chunks (Iterable 0)
       (heap (run [ShellExecutionData ''y'', ShellExecutionEnd None (Some 0), ShellExecutionData ''z'']
          (step (RunExecutor 1) secondReader))) = [''x'', ''y'']
   \<and> chunks (Iterable 0) (heap afterGap) = []
   \<and> chunks (Iterable 0) (heap (run [ShellExecutionData ''b''] (step (RunExecutor 0) afterGap)))
       = [''b'']"
proof -
  have h: "1 < length (h_iterables (heap secondReader))"
    "\<not> it_started (h_iterables (heap secondReader) ! 1)"
    by (simp_all add: secondReader_full)
  have p: "pushedTo (it_stream (h_iterables (heap secondReader) ! 1))
      [ShellExecutionData ''y'', ShellExecutionEnd None (Some 0), ShellExecutionData ''z'']
      (step (RunExecutor 1) secondReader) = [''y'']"
    by (simp add: secondReader_full heap_defs session_defs currentStream_def)
  have z: "chunks (Iterable 0)
       (heap (run [ShellExecutionData ''y'', ShellExecutionEnd None (Some 0), ShellExecutionData ''z'']
          (step (RunExecutor 1) secondReader))) = [''x'', ''y'']"
    by (simp add: secondReader_full heap_defs session_defs chunks_def)
  have g: "0 < length (h_iterables (heap afterGap))"
    "\<not> it_started (h_iterables (heap afterGap) ! 0)"
    by (simp_all add: afterGap_full)
  have q: "pushedTo (it_stream (h_iterables (heap afterGap) ! 0)) [ShellExecutionData ''b'']
      (step (RunExecutor 0) afterGap) = [''b'']"
    by (simp add: afterGap_full heap_defs session_defs currentStream_def)
  show ?thesis
    using no_loss_on_attach [OF secondReader_def h, of
        "[ShellExecutionData ''y'', ShellExecutionEnd None (Some 0), ShellExecutionData ''z'']"]
      no_loss_on_attach [OF afterGap_def g, of "[ShellExecutionData ''b'']"]
    by (simp only: p q z simp_thms)
qed

end
